theory Spec2Isabelle
  imports Main "HOL-Library.Signed_Division"
begin

section \<open>Errors, replies and the key-value store\<close>

text \<open>
  Byte slices are character lists; a nil slice and an empty slice are both \<open>[]\<close>.
  Errors are values. \<open>StoreError\<close> stands for any error a connection returns,
  \<open>CodecError\<close> for any error of json.Marshal or json.Unmarshal, \<open>ErrNil\<close> for
  the client library's redis.ErrNil.
\<close>

type_synonym bytes = string

datatype error =
    ErrLockTimeout
  | ErrAlreadyQueued
  | ErrNil
  | StoreError string
  | CodecError string

fun error_text :: "error \<Rightarrow> string" where
  "error_text ErrLockTimeout = ''lock timeout''"
| "error_text ErrAlreadyQueued = ''job already queued''"
| "error_text ErrNil = ''redigo: nil returned''"
| "error_text (StoreError s) = s"
| "error_text (CodecError s) = s"

datatype reply = RNil | RStatus string | RInt int | RBulk bytes | RMulti "reply list"

text \<open>
  The commands that the source sends. \<open>queued\<close> are the commands it buffers with
  r.Send between "MULTI" and r.Do("EXEC"); \<open>EXEC\<close> carries that buffer, since the
  client flushes it in the one r.Do call and the store runs it as one unit.
\<close>

datatype queued =
    LPUSH string bytes
  | HSET string bytes bytes
  | LREM string int bytes
  | HDEL string bytes

datatype command =
    SET_NX_PX string bytes int
  | SET_XX_PX string bytes int
  | RPOPLPUSH string string
  | BRPOPLPUSH string string int
  | HEXISTS string bytes
  | HGET string bytes
  | EXEC "queued list"

text \<open>
  The store as the source sees it: a wall clock in nanoseconds, string keys with
  an absolute expiry, lists (head is the left end), hashes, and the connection
  faults still to come: each r.Do takes the next entry, and \<open>Some e\<close> makes that
  call return \<open>e\<close> without reaching the store.
\<close>

record world =
  clock :: int
  strs :: "string \<rightharpoonup> (bytes \<times> int)"
  lists :: "string \<Rightarrow> bytes list"
  hashes :: "string \<Rightarrow> (bytes \<rightharpoonup> bytes)"
  faults :: "error option list"

definition live :: "world \<Rightarrow> string \<Rightarrow> bool" where
  "live w k = (case strs w k of None \<Rightarrow> False | Some (v, d) \<Rightarrow> clock w < d)"

text \<open>
  Modelled from the spec: the store itself is an external service, so each command
  follows the table of required semantics (conditional set succeeds only if the key
  did not exist / exists and sets the ttl; push prepends; move pops the tail of the
  source and pushes on the head of the destination, nil if the source is empty;
  remove-value with count 0 removes all occurrences). A non-positive ttl is an
  error reply, as the store rejects it.
\<close>

fun lrem_first :: "nat \<Rightarrow> bytes \<Rightarrow> bytes list \<Rightarrow> bytes list" where
  "lrem_first 0 v xs = xs"
| "lrem_first (Suc n) v [] = []"
| "lrem_first (Suc n) v (x # xs) =
     (if x = v then lrem_first n v xs else x # lrem_first (Suc n) v xs)"

definition lrem :: "int \<Rightarrow> bytes \<Rightarrow> bytes list \<Rightarrow> bytes list" where
  "lrem n v xs =
     (if n = 0 then removeAll v xs
      else if 0 < n then lrem_first (nat n) v xs
      else rev (lrem_first (nat (- n)) v (rev xs)))"

fun apply_queued :: "queued \<Rightarrow> world \<Rightarrow> reply \<times> world" where
  "apply_queued (LPUSH k v) w =
     (RInt (int (length (lists w k)) + 1), w\<lparr>lists := (lists w)(k := v # lists w k)\<rparr>)"
| "apply_queued (HSET k f v) w =
     (RInt (if hashes w k f = None then 1 else 0),
      w\<lparr>hashes := (hashes w)(k := (hashes w k)(f \<mapsto> v))\<rparr>)"
| "apply_queued (LREM k n v) w =
     (RInt (int (length (lists w k)) - int (length (lrem n v (lists w k)))),
      w\<lparr>lists := (lists w)(k := lrem n v (lists w k))\<rparr>)"
| "apply_queued (HDEL k f) w =
     (RInt (if hashes w k f = None then 0 else 1),
      w\<lparr>hashes := (hashes w)(k := (hashes w k)(f := None))\<rparr>)"

fun exec_all :: "queued list \<Rightarrow> world \<Rightarrow> reply list \<times> world" where
  "exec_all [] w = ([], w)"
| "exec_all (q # qs) w =
     (case apply_queued q w of (r, w') \<Rightarrow>
        (case exec_all qs w' of (rs, w'') \<Rightarrow> (r # rs, w'')))"

definition pop_push :: "string \<Rightarrow> string \<Rightarrow> world \<Rightarrow> (error + reply) \<times> world" where
  "pop_push src dst w =
     (case rev (lists w src) of
        [] \<Rightarrow> (Inr RNil, w)
      | v # rest \<Rightarrow>
          (let ls = (lists w)(src := rev rest)
           in (Inr (RBulk v), w\<lparr>lists := ls(dst := v # ls dst)\<rparr>)))"

fun perform :: "command \<Rightarrow> world \<Rightarrow> (error + reply) \<times> world" where
  "perform (SET_NX_PX k v ms) w =
     (if ms \<le> 0 then (Inl (StoreError ''ERR invalid expire time in set''), w)
      else if live w k then (Inr RNil, w)
      else (Inr (RStatus ''OK''), w\<lparr>strs := (strs w)(k \<mapsto> (v, clock w + ms * 1000000))\<rparr>))"
| "perform (SET_XX_PX k v ms) w =
     (if ms \<le> 0 then (Inl (StoreError ''ERR invalid expire time in set''), w)
      else if live w k
      then (Inr (RStatus ''OK''), w\<lparr>strs := (strs w)(k \<mapsto> (v, clock w + ms * 1000000))\<rparr>)
      else (Inr RNil, w))"
| "perform (RPOPLPUSH src dst) w = pop_push src dst w"
| "perform (BRPOPLPUSH src dst t) w = pop_push src dst w"
| "perform (HEXISTS k f) w = (Inr (RInt (if hashes w k f = None then 0 else 1)), w)"
| "perform (HGET k f) w =
     (case hashes w k f of None \<Rightarrow> (Inr RNil, w) | Some v \<Rightarrow> (Inr (RBulk v), w))"
| "perform (EXEC qs) w = (case exec_all qs w of (rs, w') \<Rightarrow> (Inr (RMulti rs), w'))"

text \<open>
  r.Do: the next fault entry decides whether the command reaches the store; an
  exhausted list means no further faults.
\<close>

definition pending :: "world \<Rightarrow> error option" where
  "pending w = (case faults w of [] \<Rightarrow> None | f # fs \<Rightarrow> f)"

definition advance :: "world \<Rightarrow> world" where
  "advance w = w\<lparr>faults := tl (faults w)\<rparr>"

definition Do :: "command \<Rightarrow> world \<Rightarrow> (error + reply) \<times> world" where
  "Do cmd w =
     (case pending w of
        Some e \<Rightarrow> (Inl e, advance w)
      | None \<Rightarrow> perform cmd (advance w))"

text \<open>
  A blocking pop with timeout 0 on an empty list does not return (nobody else
  pushes in a sequential run); \<open>hangs\<close> says when an r.Do call is in that case.
\<close>

fun hangs :: "command \<Rightarrow> world \<Rightarrow> bool" where
  "hangs (BRPOPLPUSH src dst t) w = (t = 0 \<and> lists w src = [] \<and> pending w = None)"
| "hangs _ w = False"

definition empty_world :: world where
  "empty_world =
     \<lparr>clock = 0, strs = Map.empty, lists = (\<lambda>k. []), hashes = (\<lambda>k. Map.empty), faults = []\<rparr>"

text \<open>
  The client library's reply conversions redis.Int and redis.Bytes, on the replies
  that the commands above can give (redis.Int would also parse a bulk string).
\<close>

fun redis_Int :: "error + reply \<Rightarrow> error + int" where
  "redis_Int (Inl e) = Inl e"
| "redis_Int (Inr (RInt n)) = Inr n"
| "redis_Int (Inr RNil) = Inl ErrNil"
| "redis_Int (Inr _) = Inl (StoreError ''redigo: unexpected type for Int'')"

fun redis_Bytes :: "error + reply \<Rightarrow> error + bytes" where
  "redis_Bytes (Inl e) = Inl e"
| "redis_Bytes (Inr (RBulk b)) = Inr b"
| "redis_Bytes (Inr (RStatus s)) = Inr s"
| "redis_Bytes (Inr RNil) = Inl ErrNil"
| "redis_Bytes (Inr _) = Inl (StoreError ''redigo: unexpected type for Bytes'')"

section \<open>The job queue\<close>

text \<open>
  A job is any Go value; the queue only ever observes what json.Marshal returns
  for it and, when its type implements JobQueueKeyer, what JobQueueKey() returns.
\<close>

record job =
  encoding :: "error + bytes"
  queue_key :: "bytes option"

record jobqueue =
  Queue :: string

record work =
  Work_Queue :: string
  Work_key :: bytes

datatype 'a outcome = Returns 'a | Panics string | Blocks

definition jobQueueRawMarshal :: "job \<Rightarrow> bytes \<times> error option" where
  "jobQueueRawMarshal v =
     (case encoding v of Inl e \<Rightarrow> ([], Some e) | Inr p \<Rightarrow> (p, None))"

definition jobQueueMarshal :: "job \<Rightarrow> bytes \<times> bytes \<times> error option" where
  "jobQueueMarshal j =
     (case jobQueueRawMarshal j of (payload, err) \<Rightarrow>
        if err \<noteq> None then ([], payload, err)
        else (let key = payload;
                  payload' = (case queue_key j of Some k \<Rightarrow> k | None \<Rightarrow> payload)
              in (key, payload', None)))"

definition IsQueued :: "jobqueue \<Rightarrow> job \<Rightarrow> world \<Rightarrow> (bool \<times> error option) \<times> world" where
  "IsQueued c j w =
     (case jobQueueMarshal j of (key, _, err) \<Rightarrow>
        if err \<noteq> None then ((False, err), w)
        else (case Do (HEXISTS (Queue c @ '':payload'') key) w of (r, w') \<Rightarrow>
          (case redis_Int r of
             Inl e \<Rightarrow> ((False, Some e), w')
           | Inr v \<Rightarrow> ((v \<noteq> 0, None), w'))))"

fun reply_error :: "error + reply \<Rightarrow> error option" where
  "reply_error (Inl e) = Some e"
| "reply_error (Inr _) = None"

definition Submit :: "jobqueue \<Rightarrow> job \<Rightarrow> world \<Rightarrow> error option \<times> world" where
  "Submit c j w =
     (case jobQueueMarshal j of (key, payload, err) \<Rightarrow>
        (case IsQueued c j w of ((queued, qerr), w1) \<Rightarrow>
           if qerr \<noteq> None \<or> queued then (Some ErrAlreadyQueued, w1)
           else (case Do (EXEC [LPUSH (Queue c) key,
                                HSET (Queue c @ '':payload'') key payload]) w1 of
                   (r, w2) \<Rightarrow> (reply_error r, w2))))"

definition Complete :: "work \<Rightarrow> world \<Rightarrow> error option \<times> world" where
  "Complete h w =
     (case Do (EXEC [LREM (Work_Queue h @ '':processing'') 0 (Work_key h),
                     HDEL (Work_Queue h @ '':payload'') (Work_key h)]) w of
        (r, w') \<Rightarrow> (reply_error r, w'))"

definition Resubmit :: "work \<Rightarrow> world \<Rightarrow> error option \<times> world" where
  "Resubmit h w =
     (case Do (EXEC [LREM (Work_Queue h @ '':processing'') 0 (Work_key h),
                     LPUSH (Work_Queue h) (Work_key h)]) w of
        (r, w') \<Rightarrow> (reply_error r, w'))"

text \<open>
  Get takes the decoder of the caller's target value: \<open>unmarshal d\<close> is what
  json.Unmarshal(d, v) does for the \<open>v\<close> passed in, an error or the decoded value.
  The Go pair (*Work, error) is a sum: \<open>Inl err\<close> is (nil, err).
\<close>

definition Get ::
  "jobqueue \<Rightarrow> (bytes \<Rightarrow> error + 'v) \<Rightarrow> world \<Rightarrow> (error + work \<times> 'v) outcome \<times> world" where
  "Get c unmarshal w =
     (let pop = BRPOPLPUSH (Queue c) (Queue c @ '':processing'') 0 in
      if hangs pop w then (Blocks, w)
      else (case Do pop w of (r, w1) \<Rightarrow>
        (case redis_Bytes r of
           Inl e \<Rightarrow> (Returns (Inl e), w1)
         | Inr key \<Rightarrow>
             (case Do (HGET (Queue c @ '':payload'') key) w1 of (r2, w2) \<Rightarrow>
                (let res = (case redis_Bytes r2 of Inl e \<Rightarrow> Inl e | Inr d \<Rightarrow> unmarshal d);
                     h = \<lparr>Work_Queue = Queue c, Work_key = key\<rparr>
                 in (case res of
                       Inl err \<Rightarrow>
                         (case Resubmit h w2 of
                            (Some rerr, w3) \<Rightarrow>
                              (Panics (''could not resubmit job: '' @ error_text rerr), w3)
                          | (None, w3) \<Rightarrow> (Returns (Inl err), w3))
                     | Inr v \<Rightarrow> (Returns (Inr (h, v)), w2)))))))"

text \<open>
  Cleanup's loop. Each round moves one element, so the length of the processing
  list bounds the rounds. The two log lines write nothing to the store and are
  left out.
\<close>

lemma pop_push_shrinks:
  assumes "pop_push src dst w = (Inr v, w')" "v \<noteq> RNil" "src \<noteq> dst"
  shows "length (lists w' src) < length (lists w src)"
proof (cases "rev (lists w src)")
  case Nil
  with assms show ?thesis by (simp add: pop_push_def)
next
  case (Cons x rest)
  then have "length (lists w src) = Suc (length rest)"
    by (metis length_Cons length_rev)
  with assms Cons show ?thesis by (auto simp: pop_push_def Let_def)
qed

lemma Do_RPOPLPUSH_shrinks:
  assumes "Do (RPOPLPUSH src dst) w = (Inr v, w')" "v \<noteq> RNil" "src \<noteq> dst"
  shows "length (lists w' src) < length (lists w src)"
proof (cases "pending w")
  case None
  with assms have "pop_push src dst (advance w) = (Inr v, w')"
    by (simp add: Do_def)
  from pop_push_shrinks[OF this assms(2,3)] show ?thesis by (simp add: advance_def)
next
  case (Some e)
  with assms show ?thesis by (simp add: Do_def)
qed

function Cleanup_loop :: "jobqueue \<Rightarrow> world \<Rightarrow> error option \<times> world" where
  "Cleanup_loop c w =
     (case Do (RPOPLPUSH (Queue c @ '':processing'') (Queue c)) w of (r, w') \<Rightarrow>
        (case r of
           Inl err \<Rightarrow> (Some err, w')
         | Inr v \<Rightarrow> if v = RNil then (None, w') else Cleanup_loop c w'))"
  by pat_completeness auto
termination
  apply (relation "measure (\<lambda>(c, w). length (lists w (Queue c @ '':processing'')))")
  subgoal by simp
  subgoal for c w r w' v
    using Do_RPOPLPUSH_shrinks[of "Queue c @ '':processing''" "Queue c" w v w'] by simp
  done

declare Cleanup_loop.simps [simp del]

definition Cleanup :: "jobqueue \<Rightarrow> world \<Rightarrow> error option \<times> world" where
  "Cleanup c w = Cleanup_loop c w"

section \<open>The lock\<close>

text \<open>
  Durations and times are nanoseconds, int64 in the source and unbounded here: no
  statement below depends on overflow. Taking a connection from the pool and
  closing it exchange nothing with the store and are left out. The three channels
  have capacity 1 and are the lists of their buffered values. \<open>mutex\<close> is the field \<open>lock\<close> (true while the
  sync.Mutex is held). \<open>task\<close> is no field of the struct: it holds the goroutine
  that \<open>go l.heartbeat()\<close> starts, with its program counter and its ticker: the
  period and \<open>next_tick\<close>, the time of the earliest tick that the goroutine has
  not yet received.
\<close>

datatype hb_pc = HB_Renew | HB_Signal error | HB_Select | HB_Ack | HB_Exit

record heartbeat_task =
  pc :: hb_pc
  period :: int
  next_tick :: int

record lock_handle =
  Key :: string
  Expiry :: int
  mutex :: bool
  errors :: "error list"
  stop :: "bool list"
  stopped :: "bool list"
  task :: "heartbeat_task option"

definition NewLock :: "string \<Rightarrow> lock_handle" where
  "NewLock key =
     \<lparr>Key = key, Expiry = 2 * 1000000000, mutex = False,
      errors = [], stop = [], stopped = [], task = None\<rparr>"

definition chan_send :: "'a \<Rightarrow> 'a list \<Rightarrow> 'a list option" where
  "chan_send v c = (if length c < 1 then Some (c @ [v]) else None)"

definition chan_recv :: "'a list \<Rightarrow> ('a \<times> 'a list) option" where
  "chan_recv c = (case c of [] \<Rightarrow> None | v # c' \<Rightarrow> Some (v, c'))"

text \<open>The two commands of the lock: \<open>Expiry.Nanoseconds()/1000000\<close> truncates.\<close>

definition acquire_cmd :: "lock_handle \<Rightarrow> command" where
  "acquire_cmd l = SET_NX_PX (Key l) ''1'' (Expiry l sdiv 1000000)"

definition renew_cmd :: "lock_handle \<Rightarrow> command" where
  "renew_cmd l = SET_XX_PX (Key l) ''1'' (Expiry l sdiv 1000000)"

text \<open>
  One attempt of LockWait's loop: the command and the two tests on its result;
  \<open>Inr True\<close> is the break out of the loop, \<open>Inr False\<close> a nil reply.
\<close>

definition attempt :: "lock_handle \<Rightarrow> world \<Rightarrow> (error + bool) \<times> world" where
  "attempt l w =
     (case Do (acquire_cmd l) w of (r, w') \<Rightarrow>
        (case r of Inl err \<Rightarrow> (Inl err, w') | Inr v \<Rightarrow> (Inr (v \<noteq> RNil), w')))"

text \<open>
  One pass of the loop from its r.Do to the return of time.Sleep: the round trip
  of the command takes time and the sleep lasts at least its duration, so the
  clock read after the sleep is later than the one before the command by more
  than the duration. Meanwhile the other clients of the store act on it (\<open>env\<close>);
  \<open>env\<close> may also move the clock further on (a slow command, a late wake-up), and
  does not touch this connection's faults.
\<close>

definition Sleep :: "(world \<Rightarrow> world) \<Rightarrow> int \<Rightarrow> world \<Rightarrow> world" where
  "Sleep env d w =
     (env w)\<lparr>clock := max (clock (env w)) (clock w + (if 0 < d then d else 0) + 1),
             faults := faults w\<rparr>"

lemma attempt_busy_positive:
  assumes "attempt l w = (Inr False, w')"
  shows "1000000 \<le> Expiry l \<and> clock w' = clock w \<and> faults w' = tl (faults w)"
proof -
  have ms: "0 < Expiry l sdiv 1000000 \<and> clock w' = clock w \<and> faults w' = tl (faults w)"
    using assms
    by (cases "pending w")
       (auto simp: attempt_def acquire_cmd_def Do_def advance_def split: if_splits)
  then have "0 < sgn (Expiry l) * (\<bar>Expiry l\<bar> div 1000000)"
    by (simp add: signed_divide_int_def)
  then have "1000000 \<le> Expiry l"
    by (cases "Expiry l < 1000000") (auto simp: sgn_if zero_less_mult_iff split: if_splits)
  with ms show ?thesis by simp
qed

function LockWait_loop ::
  "(world \<Rightarrow> world) \<Rightarrow> lock_handle \<Rightarrow> int \<Rightarrow> world \<Rightarrow> error option \<times> lock_handle \<times> world" where
  "LockWait_loop env l expire w =
     (case attempt l w of (r, w1) \<Rightarrow>
        (case r of
           Inl err \<Rightarrow> (Some err, l\<lparr>mutex := False\<rparr>, w1)
         | Inr acquired \<Rightarrow>
             if acquired
             then (None,
                   l\<lparr>task := Some \<lparr>pc = HB_Renew, period = Expiry l sdiv 4,
                                   next_tick = clock w1 + Expiry l sdiv 4\<rparr>\<rparr>, w1)
             else (let w2 = Sleep env (Expiry l) w1
                   in if expire < clock w2 then (Some ErrLockTimeout, l\<lparr>mutex := False\<rparr>, w2)
                      else LockWait_loop env l expire w2)))"
  by pat_completeness auto
termination
  apply (relation "measure (\<lambda>(env, l, expire, w). nat (expire - clock w))")
  subgoal by simp
  subgoal for env l expire w r w1 acquired w2
    using attempt_busy_positive[of l w w1]
    by (auto simp: Sleep_def max_def split: if_splits)
  done

declare LockWait_loop.simps [simp del]

definition LockWait ::
  "(world \<Rightarrow> world) \<Rightarrow> lock_handle \<Rightarrow> int \<Rightarrow> world
     \<Rightarrow> (error option) outcome \<times> lock_handle \<times> world" where
  "LockWait env l wait w =
     (if mutex l then (Blocks, l, w)
      else (case LockWait_loop env (l\<lparr>mutex := True\<rparr>) (clock w + wait) w of
              (err, l', w') \<Rightarrow> (Returns err, l', w')))"

definition Lock :: "(world \<Rightarrow> world) \<Rightarrow> lock_handle \<Rightarrow> world
     \<Rightarrow> (error option) outcome \<times> lock_handle \<times> world" where
  "Lock env l w = LockWait env l (100000 * 3600000000000) w"

text \<open>
  The heartbeat goroutine, one step at a time. \<open>HB_Renew\<close> is the r.Do of the loop,
  \<open>HB_Signal\<close> the send on \<open>errors\<close>, \<open>HB_Select\<close> the select, \<open>HB_Ack\<close> the send on
  \<open>stopped\<close>. A step that cannot proceed (full channel, no ready case) changes
  nothing. The select takes the case the scheduler's \<open>choice\<close> names, if it is
  ready: \<open>stop\<close> when a value is buffered, the ticker when a tick is waiting in
  its channel. The ticker fires at \<open>next_tick\<close> and then once every period; its
  channel holds one tick, and a tick that finds one waiting is dropped. So a tick
  is waiting from \<open>next_tick\<close> on (\<open>ticker_fired\<close>), and once it is received the
  next one comes at the first multiple of the period after the present
  (\<open>ticker_next\<close>). With a period that is not positive time.Tick returns a nil
  channel, which never delivers.
\<close>

definition ticker_fired :: "heartbeat_task \<Rightarrow> world \<Rightarrow> bool" where
  "ticker_fired t w = (0 < period t \<and> next_tick t \<le> clock w)"

definition ticker_next :: "heartbeat_task \<Rightarrow> world \<Rightarrow> int" where
  "ticker_next t w =
     (if ticker_fired t w
      then next_tick t + period t * ((clock w - next_tick t) div period t + 1)
      else next_tick t)"

datatype choice = Take_stop | Take_tick

definition heartbeat_step :: "choice \<Rightarrow> lock_handle \<times> world \<Rightarrow> lock_handle \<times> world" where
  "heartbeat_step ch s =
     (case s of (l, w) \<Rightarrow>
        (case task l of
           None \<Rightarrow> (l, w)
         | Some t \<Rightarrow>
             (case pc t of
                HB_Renew \<Rightarrow>
                  (case Do (renew_cmd l) w of
                     (Inl err, w') \<Rightarrow> (l\<lparr>task := Some (t\<lparr>pc := HB_Signal err\<rparr>)\<rparr>, w')
                   | (Inr v, w') \<Rightarrow> (l\<lparr>task := Some (t\<lparr>pc := HB_Select\<rparr>)\<rparr>, w'))
              | HB_Signal err \<Rightarrow>
                  (case chan_send err (errors l) of
                     None \<Rightarrow> (l, w)
                   | Some c \<Rightarrow> (l\<lparr>errors := c, task := Some (t\<lparr>pc := HB_Exit\<rparr>)\<rparr>, w))
              | HB_Select \<Rightarrow>
                  (case ch of
                     Take_stop \<Rightarrow>
                       (case chan_recv (stop l) of
                          None \<Rightarrow> (l, w)
                        | Some (v, c) \<Rightarrow> (l\<lparr>stop := c, task := Some (t\<lparr>pc := HB_Ack\<rparr>)\<rparr>, w))
                   | Take_tick \<Rightarrow>
                       if ticker_fired t w
                       then (l\<lparr>task := Some (t\<lparr>pc := HB_Renew,
                                                next_tick := ticker_next t w\<rparr>)\<rparr>, w)
                       else (l, w))
              | HB_Ack \<Rightarrow>
                  (case chan_send True (stopped l) of
                     None \<Rightarrow> (l, w)
                   | Some c \<Rightarrow> (l\<lparr>stopped := c, task := Some (t\<lparr>pc := HB_Exit\<rparr>)\<rparr>, w))
              | HB_Exit \<Rightarrow> (l, w))))"

text \<open>
  Unlock, one step at a time: the send on \<open>stop\<close>, the receive from \<open>stopped\<close>, and
  the deferred release of the mutex (a fatal runtime error when it is not held).
\<close>

datatype unlock_pc = UL_Stop | UL_Wait | UL_Release | UL_Returned | UL_Fatal

definition Unlock_step :: "unlock_pc \<times> lock_handle \<Rightarrow> unlock_pc \<times> lock_handle" where
  "Unlock_step s =
     (case s of (u, l) \<Rightarrow>
        (case u of
           UL_Stop \<Rightarrow>
             (case chan_send True (stop l) of
                None \<Rightarrow> (UL_Stop, l)
              | Some c \<Rightarrow> (UL_Wait, l\<lparr>stop := c\<rparr>))
         | UL_Wait \<Rightarrow>
             (case chan_recv (stopped l) of
                None \<Rightarrow> (UL_Wait, l)
              | Some (v, c) \<Rightarrow> (UL_Release, l\<lparr>stopped := c\<rparr>))
         | UL_Release \<Rightarrow>
             (if mutex l then (UL_Returned, l\<lparr>mutex := False\<rparr>) else (UL_Fatal, l))
         | UL_Returned \<Rightarrow> (UL_Returned, l)
         | UL_Fatal \<Rightarrow> (UL_Fatal, l)))"

text \<open>
  A schedule interleaves the steps of an Unlock call and of the heartbeat
  goroutine with the passing of time.
\<close>

datatype event = Ev_Unlock | Ev_Beat choice | Ev_Elapse int

fun sys_step :: "event \<Rightarrow> unlock_pc \<times> lock_handle \<times> world \<Rightarrow> unlock_pc \<times> lock_handle \<times> world" where
  "sys_step Ev_Unlock (u, l, w) = (case Unlock_step (u, l) of (u', l') \<Rightarrow> (u', l', w))"
| "sys_step (Ev_Beat ch) (u, l, w) = (case heartbeat_step ch (l, w) of (l', w') \<Rightarrow> (u, l', w'))"
| "sys_step (Ev_Elapse d) (u, l, w) = (u, l, w\<lparr>clock := clock w + (if 0 < d then d else 0)\<rparr>)"

fun sys_run :: "event list \<Rightarrow> unlock_pc \<times> lock_handle \<times> world \<Rightarrow> unlock_pc \<times> lock_handle \<times> world" where
  "sys_run [] s = s"
| "sys_run (e # es) s = sys_run es (sys_step e s)"

section \<open>Runs and predicates of the statements\<close>

text \<open>
  \<open>Gets n\<close>: n consecutive Get calls, as consumers make them; the result lists the
  keys of the handles returned, and stops at the first call that returns none.
\<close>

fun Gets :: "nat \<Rightarrow> jobqueue \<Rightarrow> (bytes \<Rightarrow> error + 'v) \<Rightarrow> world \<Rightarrow> bytes list \<times> world" where
  "Gets 0 c unmarshal w = ([], w)"
| "Gets (Suc n) c unmarshal w =
     (case Get c unmarshal w of
        (Returns (Inr (h, v)), w') \<Rightarrow>
          (case Gets n c unmarshal w' of (ks, w'') \<Rightarrow> (Work_key h # ks, w''))
      | (_, w') \<Rightarrow> ([], w'))"

definition decodable :: "jobqueue \<Rightarrow> (bytes \<Rightarrow> error + 'v) \<Rightarrow> world \<Rightarrow> bytes \<Rightarrow> bool" where
  "decodable c unmarshal w k =
     (case hashes w (Queue c @ '':payload'') k of
        None \<Rightarrow> False
      | Some d \<Rightarrow> (case unmarshal d of Inl e \<Rightarrow> False | Inr v \<Rightarrow> True))"

text \<open>
  \<open>conserved\<close>: the key is absent (not indexed, in no list), waiting (indexed, in
  the waiting list only) or processing (indexed, in the processing list only).
  \<open>store_ok\<close> is the stronger consistency that the operations maintain: no key twice
  in the two lists, and the index holds exactly the keys of the two lists.
\<close>

definition conserved :: "jobqueue \<Rightarrow> world \<Rightarrow> bytes \<Rightarrow> bool" where
  "conserved c w k =
     (let waiting = k \<in> set (lists w (Queue c));
          processing = k \<in> set (lists w (Queue c @ '':processing''));
          indexed = hashes w (Queue c @ '':payload'') k \<noteq> None
      in (\<not> indexed \<and> \<not> waiting \<and> \<not> processing)
       \<or> (indexed \<and> waiting \<and> \<not> processing)
       \<or> (indexed \<and> \<not> waiting \<and> processing))"

definition store_ok :: "jobqueue \<Rightarrow> world \<Rightarrow> bool" where
  "store_ok c w =
     (distinct (lists w (Queue c) @ lists w (Queue c @ '':processing''))
      \<and> dom (hashes w (Queue c @ '':payload''))
          = set (lists w (Queue c) @ lists w (Queue c @ '':processing'')))"

definition handles_ok :: "jobqueue \<Rightarrow> world \<Rightarrow> work list \<Rightarrow> bool" where
  "handles_ok c w hs =
     (distinct (map Work_key hs)
      \<and> set (map Work_key hs) \<subseteq> set (lists w (Queue c @ '':processing''))
      \<and> list_all (\<lambda>h. Work_Queue h = Queue c) hs)"

text \<open>
  A sequence of client operations, run one after another. \<open>step\<close> keeps the handles
  that Get has returned and that no successful Complete or Resubmit has used up;
  Complete and Resubmit act only on such an outstanding handle.
\<close>

datatype op = Op_Submit job | Op_Get | Op_Complete work | Op_Resubmit work

fun step :: "jobqueue \<Rightarrow> (bytes \<Rightarrow> error + 'v) \<Rightarrow> op \<Rightarrow> world \<times> work list \<Rightarrow> world \<times> work list" where
  "step c unmarshal (Op_Submit j) (w, hs) = (snd (Submit c j w), hs)"
| "step c unmarshal Op_Get (w, hs) =
     (case Get c unmarshal w of
        (Returns (Inr (h, v)), w') \<Rightarrow> (w', h # hs)
      | (_, w') \<Rightarrow> (w', hs))"
| "step c unmarshal (Op_Complete h) (w, hs) =
     (if h \<in> set hs
      then (case Complete h w of (None, w') \<Rightarrow> (w', remove1 h hs) | (Some e, w') \<Rightarrow> (w', hs))
      else (w, hs))"
| "step c unmarshal (Op_Resubmit h) (w, hs) =
     (if h \<in> set hs
      then (case Resubmit h w of (None, w') \<Rightarrow> (w', remove1 h hs) | (Some e, w') \<Rightarrow> (w', hs))
      else (w, hs))"

fun run :: "jobqueue \<Rightarrow> (bytes \<Rightarrow> error + 'v) \<Rightarrow> op list \<Rightarrow> world \<times> work list \<Rightarrow> world \<times> work list" where
  "run c unmarshal [] s = s"
| "run c unmarshal (x # xs) s = run c unmarshal xs (step c unmarshal x s)"

text \<open>
  \<open>stuck\<close>: no heartbeat goroutine is alive, nothing is buffered on \<open>stopped\<close>, the
  mutex is held, and the Unlock call is before its send with \<open>stop\<close> empty or at
  its receive with its own value buffered on \<open>stop\<close>.
\<close>

definition stuck :: "unlock_pc \<Rightarrow> lock_handle \<Rightarrow> bool" where
  "stuck u l =
     ((case task l of None \<Rightarrow> True | Some t \<Rightarrow> pc t = HB_Exit)
      \<and> stopped l = [] \<and> mutex l
      \<and> (case u of UL_Stop \<Rightarrow> stop l = [] | UL_Wait \<Rightarrow> stop l = [True] | _ \<Rightarrow> False))"

text \<open>
  Any number of handles, in any processes, work on the one store. The only
  commands they send are the attempt of LockWait's loop and the renewal of the
  heartbeat; Unlock sends none. A history interleaves these with the passing of
  time. \<open>winners\<close> lists the handles on key \<open>k\<close> whose attempt breaks out of the loop,
  that is whose LockWait returns nil; \<open>lease_kept\<close> says that the key stays live in
  the store before and after every event.
\<close>

datatype lock_event =
    Acquire lock_handle
  | Renew lock_handle
  | Release lock_handle
  | Pass int

fun lock_step :: "lock_event \<Rightarrow> world \<Rightarrow> world" where
  "lock_step (Acquire l) w = snd (attempt l w)"
| "lock_step (Renew l) w = snd (Do (renew_cmd l) w)"
| "lock_step (Release l) w = w"
| "lock_step (Pass d) w = w\<lparr>clock := clock w + (if 0 < d then d else 0)\<rparr>"

fun winners :: "string \<Rightarrow> lock_event list \<Rightarrow> world \<Rightarrow> lock_handle list" where
  "winners k [] w = []"
| "winners k (Acquire l # es) w =
     (if Key l = k \<and> fst (attempt l w) = Inr True
      then l # winners k es (lock_step (Acquire l) w)
      else winners k es (lock_step (Acquire l) w))"
| "winners k (e # es) w = winners k es (lock_step e w)"

fun lease_kept :: "string \<Rightarrow> lock_event list \<Rightarrow> world \<Rightarrow> bool" where
  "lease_kept k [] w = live w k"
| "lease_kept k (e # es) w = (live w k \<and> lease_kept k es (lock_step e w))"

section \<open>Concrete scenarios\<close>

definition one_job_world :: world where
  "one_job_world = empty_world\<lparr>lists := (\<lambda>k. [])(''q'' := [''job'']),
      hashes := (\<lambda>k. Map.empty)(''q:payload'' := [''job'' \<mapsto> ''junk''])\<rparr>"

definition held_job_world :: world where
  "held_job_world = empty_world\<lparr>lists := (\<lambda>k. [])(''q:processing'' := [''[1,2]'']),
      hashes := (\<lambda>k. Map.empty)(''q:payload'' := [''[1,2]'' \<mapsto> ''[1,2]''])\<rparr>"

definition crashed_world :: world where
  "crashed_world = empty_world\<lparr>lists := (\<lambda>k. [])(''q:processing'' := [''[1,2]''], ''q'' := [''[3]'']),
      hashes := (\<lambda>k. Map.empty)(''q:payload'' := [''[1,2]'' \<mapsto> ''[1,2]'', ''[3]'' \<mapsto> ''[3]''])\<rparr>"

text \<open>
  A client that resubmits one handle twice: Submit, Get, Resubmit, Resubmit on the
  same handle, Get.
\<close>

definition misuse_world :: world where
  "misuse_world =
     (let c = \<lparr>Queue = ''q''\<rparr>;
          h = \<lparr>Work_Queue = ''q'', Work_key = ''[1,2]''\<rparr>;
          w1 = snd (Submit c \<lparr>encoding = Inr ''[1,2]'', queue_key = None\<rparr> empty_world);
          w2 = snd (Get c (Inr :: bytes \<Rightarrow> error + bytes) w1);
          w3 = snd (Resubmit h w2);
          w4 = snd (Resubmit h w3)
      in snd (Get c (Inr :: bytes \<Rightarrow> error + bytes) w4))"


definition rival_renews :: "world \<Rightarrow> world" where
  "rival_renews w = w\<lparr>strs := (strs w)(''lock'' \<mapsto> (''1'', clock w + 4000000000))\<rparr>"

text \<open>
  A concrete run: a fresh handle for the key ''lock'' acquires it on the empty
  store at time 0, with the default lease of two seconds.
\<close>

definition acquired_lock :: "lock_handle \<times> world" where
  "acquired_lock = snd (LockWait (\<lambda>w. w) (NewLock ''lock'') 0 empty_world)"


text \<open>
  The heartbeat of the acquired lock meets a connection error on its first
  renewal, sends it on \<open>errors\<close> and exits.
\<close>

definition dead_heartbeat :: "lock_handle \<times> world" where
  "dead_heartbeat =
     heartbeat_step Take_tick (heartbeat_step Take_tick
       (fst acquired_lock, (snd acquired_lock)\<lparr>faults := [Some (StoreError ''EOF'')]\<rparr>))"

section \<open>Key derivation\<close>

lemma jobQueueMarshal_plain:
  "encoding j = Inr p \<Longrightarrow> queue_key j = None \<Longrightarrow> jobQueueMarshal j = (p, p, None)"
  by (simp add: jobQueueMarshal_def jobQueueRawMarshal_def)

lemma jobQueueMarshal_keyer:
  "encoding j = Inr p \<Longrightarrow> queue_key j = Some k \<Longrightarrow> jobQueueMarshal j = (p, k, None)"
  by (simp add: jobQueueMarshal_def jobQueueRawMarshal_def)

lemma jobQueueMarshal_error:
  "encoding j = Inl e \<Longrightarrow> jobQueueMarshal j = ([], [], Some e)"
  by (simp add: jobQueueMarshal_def jobQueueRawMarshal_def)

text \<open>
  C4. The marshaling used by Submit, IsQueued and Get should give the custom-derived
  key as dedup key and the serialized job as payload when the job implements the
  key-derivation capability. At a job that serializes to \<open>[1,2]\<close> and derives the key
  \<open>k\<close>, jobQueueMarshal returns them the other way round: the serialized job is the
  key and the derived key is the payload.
\<close>

theorem jobQueueMarshal_keyer_swapped:
  "jobQueueMarshal \<lparr>encoding = Inr ''[1,2]'', queue_key = Some ''k''\<rparr> = (''[1,2]'', ''k'', None)"
  by (simp add: jobQueueMarshal_def jobQueueRawMarshal_def)

section \<open>Facts about the store and the queue operations\<close>

lemma advance_simps [simp]:
  "clock (advance w) = clock w" "strs (advance w) = strs w" "lists (advance w) = lists w"
  "hashes (advance w) = hashes w" "faults (advance w) = tl (faults w)"
  by (simp_all add: advance_def)

lemma live_advance [simp]: "live (advance w) k = live w k"
  by (simp add: live_def split: option.split)

lemma pending_update [simp]:
  "pending (w\<lparr>lists := l\<rparr>) = pending w" "pending (w\<lparr>hashes := h\<rparr>) = pending w"
  "pending (w\<lparr>strs := s\<rparr>) = pending w" "pending (w\<lparr>clock := t\<rparr>) = pending w"
  by (simp_all add: pending_def)

lemma advance_update [simp]:
  "advance (w\<lparr>lists := l\<rparr>) = (advance w)\<lparr>lists := l\<rparr>"
  "advance (w\<lparr>hashes := h\<rparr>) = (advance w)\<lparr>hashes := h\<rparr>"
  "advance (w\<lparr>strs := s\<rparr>) = (advance w)\<lparr>strs := s\<rparr>"
  "advance (w\<lparr>clock := t\<rparr>) = (advance w)\<lparr>clock := t\<rparr>"
  by (simp_all add: advance_def)

lemma advance_quiet: "faults w = [] \<Longrightarrow> advance w = w"
  by (simp add: advance_def)

lemma pending_quiet: "faults w = [] \<Longrightarrow> pending w = None"
  by (simp add: pending_def)

lemma Do_ok: "pending w = None \<Longrightarrow> Do cmd w = perform cmd (advance w)"
  by (simp add: Do_def)

lemma Do_fault: "pending w = Some e \<Longrightarrow> Do cmd w = (Inl e, advance w)"
  by (simp add: Do_def)

lemma key_names [simp]:
  "q @ '':processing'' \<noteq> q" "q \<noteq> q @ '':processing''"
  "q @ '':payload'' \<noteq> q" "q \<noteq> q @ '':payload''"
  "q @ '':processing'' \<noteq> q @ '':payload''" "q @ '':payload'' \<noteq> q @ '':processing''"
  by simp_all

lemma Resubmit_ok:
  assumes "pending w = None"
  shows "Resubmit h w =
    (None, (advance w)\<lparr>lists := (lists w)
        (Work_Queue h @ '':processing'' := removeAll (Work_key h) (lists w (Work_Queue h @ '':processing'')),
         Work_Queue h := Work_key h # lists w (Work_Queue h))\<rparr>)"
  using assms by (simp add: Resubmit_def Do_ok lrem_def)

lemma Resubmit_fault:
  assumes "pending w = Some e"
  shows "Resubmit h w = (Some e, advance w)"
  using assms by (simp add: Resubmit_def Do_fault)

lemma Complete_ok:
  assumes "pending w = None"
  shows "Complete h w =
    (None, (advance w)\<lparr>lists := (lists w)
        (Work_Queue h @ '':processing'' := removeAll (Work_key h) (lists w (Work_Queue h @ '':processing''))),
       hashes := (hashes w)(Work_Queue h @ '':payload'' := (hashes w (Work_Queue h @ '':payload''))(Work_key h := None))\<rparr>)"
  using assms by (simp add: Complete_def Do_ok lrem_def)

lemma IsQueued_ok:
  assumes "jobQueueMarshal j = (k, p, None)" "pending w = None"
  shows "IsQueued c j w = ((hashes w (Queue c @ '':payload'') k \<noteq> None, None), advance w)"
  using assms by (simp add: IsQueued_def Do_ok)

lemma IsQueued_fault:
  assumes "jobQueueMarshal j = (k, p, None)" "pending w = Some e"
  shows "IsQueued c j w = ((False, Some e), advance w)"
  using assms by (simp add: IsQueued_def Do_fault)

lemma IsQueued_unencodable:
  assumes "jobQueueMarshal j = (k, p, Some e)" 
  shows "IsQueued c j w = ((False, Some e), w)"
  using assms by (simp add: IsQueued_def)

lemma Submit_rejected:
  assumes "jobQueueMarshal j = (k, p, None)" "pending w = None" "hashes w (Queue c @ '':payload'') k \<noteq> None"
  shows "Submit c j w = (Some ErrAlreadyQueued, advance w)"
  using assms by (simp add: Submit_def IsQueued_ok)

lemma Submit_ok:
  assumes "jobQueueMarshal j = (k, p, None)" "pending w = None" "hashes w (Queue c @ '':payload'') k = None"
    "pending (advance w) = None"
  shows "Submit c j w = (None, (advance (advance w))\<lparr>lists := (lists w)(Queue c := k # lists w (Queue c)),
       hashes := (hashes w)(Queue c @ '':payload'' := (hashes w (Queue c @ '':payload''))(k \<mapsto> p))\<rparr>)"
  using assms by (simp add: Submit_def IsQueued_ok Do_ok)

lemma Get_ok:
  assumes "lists w (Queue c) = ws @ [k]" "pending w = None" "pending (advance w) = None"
    "hashes w (Queue c @ '':payload'') k = Some d" "unmarshal d = Inr v"
  shows "Get c unmarshal w =
    (Returns (Inr (\<lparr>Work_Queue = Queue c, Work_key = k\<rparr>, v)),
     (advance (advance w))\<lparr>lists := (lists w)(Queue c := ws,
        Queue c @ '':processing'' := k # lists w (Queue c @ '':processing''))\<rparr>)"
  using assms by (simp add: Get_def Do_ok pop_push_def Let_def)

lemma Get_pop:
  assumes "lists w (Queue c) = ws @ [k]" "pending w = None"
  shows "Do (BRPOPLPUSH (Queue c) (Queue c @ '':processing'') 0) w =
    (Inr (RBulk k), (advance w)\<lparr>lists := (lists w)(Queue c := ws,
        Queue c @ '':processing'' := k # lists w (Queue c @ '':processing''))\<rparr>)"
  using assms by (simp add: Do_ok pop_push_def Let_def)

text \<open>
  C3. Submit should return AlreadyQueued exactly when the dedup key is in the index,
  and surface a store error of the membership check, or a serialization error, as
  that error. Submit tests \<open>err != nil || queued\<close> and returns ErrAlreadyQueued for
  both: with an empty index, a connection fault on the membership check and a job
  that cannot be serialized each come back as ErrAlreadyQueued.
\<close>

theorem Submit_masks_errors:
  "Submit \<lparr>Queue = ''q''\<rparr> \<lparr>encoding = Inr ''[1,2]'', queue_key = None\<rparr>
     (empty_world\<lparr>faults := [Some (StoreError ''EOF'')]\<rparr>) = (Some ErrAlreadyQueued, empty_world)
   \<and> Submit \<lparr>Queue = ''q''\<rparr> \<lparr>encoding = Inl (CodecError ''unsupported type''), queue_key = None\<rparr>
     empty_world = (Some ErrAlreadyQueued, empty_world)"
  by (simp add: Submit_def IsQueued_def jobQueueMarshal_def jobQueueRawMarshal_def Do_def
      pending_def advance_def empty_world_def)

theorem Submit_masks_errors_witness:
  "fst (Submit \<lparr>Queue = ''q''\<rparr> \<lparr>encoding = Inr ''[1,2]'', queue_key = None\<rparr>
     (empty_world\<lparr>faults := [Some (StoreError ''EOF'')]\<rparr>)) = Some ErrAlreadyQueued"
  using Submit_masks_errors by simp

text \<open>
  C5. When Get has popped a key \<open>k\<close> and the payload lookup fails (a connection
  error, or no entry: redis.ErrNil) or the payload does not decode, Get calls
  Resubmit itself. If that batch goes through, Get returns the lookup or decoding
  error and no handle, and \<open>k\<close> is back at the head of the waiting list and gone from
  the processing list; if the batch fails, Get panics with the resubmit error and
  \<open>k\<close> stays in the processing list.
\<close>

theorem Get_resubmits_bad_payload:
  assumes waiting: "lists w (Queue c) = ws @ [k]"
    and pop: "pending w = None"
    and bad: "pending (advance w) = Some err
        \<or> (pending (advance w) = None \<and> hashes w (Queue c @ '':payload'') k = None \<and> err = ErrNil)
        \<or> (pending (advance w) = None
             \<and> (\<exists>d. hashes w (Queue c @ '':payload'') k = Some d \<and> unmarshal d = Inl err))"
  shows "(pending (advance (advance w)) = None \<longrightarrow>
            fst (Get c unmarshal w) = Returns (Inl err)
          \<and> lists (snd (Get c unmarshal w)) (Queue c) = k # ws
          \<and> lists (snd (Get c unmarshal w)) (Queue c @ '':processing'')
              = removeAll k (lists w (Queue c @ '':processing''))
          \<and> hashes (snd (Get c unmarshal w)) = hashes w)
       \<and> (\<forall>rerr. pending (advance (advance w)) = Some rerr \<longrightarrow>
            fst (Get c unmarshal w) = Panics (''could not resubmit job: '' @ error_text rerr)
          \<and> lists (snd (Get c unmarshal w)) (Queue c) = ws
          \<and> lists (snd (Get c unmarshal w)) (Queue c @ '':processing'')
              = k # lists w (Queue c @ '':processing'')
          \<and> hashes (snd (Get c unmarshal w)) = hashes w)"
proof -
  let ?w1 = "(advance w)\<lparr>lists := (lists w)(Queue c := ws,
        Queue c @ '':processing'' := k # lists w (Queue c @ '':processing''))\<rparr>"
  let ?h = "\<lparr>Work_Queue = Queue c, Work_key = k\<rparr>"
  have nohang: "\<not> hangs (BRPOPLPUSH (Queue c) (Queue c @ '':processing'') 0) w"
    using waiting by simp
  have p1: "pending ?w1 = pending (advance w)" by simp
  obtain r2 where lookup: "Do (HGET (Queue c @ '':payload'') k) ?w1 = (r2, advance ?w1)"
    and res: "(case redis_Bytes r2 of Inl e \<Rightarrow> Inl e | Inr d \<Rightarrow> unmarshal d) = Inl err"
    using bad
  proof (elim disjE conjE exE)
    assume "pending (advance w) = Some err"
    then have "Do (HGET (Queue c @ '':payload'') k) ?w1 = (Inl err, advance ?w1)"
      by (simp add: Do_fault p1)
    then show ?thesis using that by simp
  next
    assume "pending (advance w) = None" "hashes w (Queue c @ '':payload'') k = None" "err = ErrNil"
    then have "Do (HGET (Queue c @ '':payload'') k) ?w1 = (Inr RNil, advance ?w1)"
      by (simp add: Do_ok p1)
    then show ?thesis using that \<open>err = ErrNil\<close> by simp
  next
    fix d assume "pending (advance w) = None" "hashes w (Queue c @ '':payload'') k = Some d"
      "unmarshal d = Inl err"
    then have "Do (HGET (Queue c @ '':payload'') k) ?w1 = (Inr (RBulk d), advance ?w1)"
      by (simp add: Do_ok p1)
    then show ?thesis using that \<open>unmarshal d = Inl err\<close> by simp
  qed
  have get: "Get c unmarshal w =
      (case Resubmit ?h (advance ?w1) of
         (Some rerr, w3) \<Rightarrow> (Panics (''could not resubmit job: '' @ error_text rerr), w3)
       | (None, w3) \<Rightarrow> (Returns (Inl err), w3))"
    unfolding Get_def Let_def using nohang waiting Get_pop[OF waiting pop] lookup res by simp
  have p2: "pending (advance ?w1) = pending (advance (advance w))" by simp
  show ?thesis
  proof (intro conjI impI allI)
    assume q: "pending (advance (advance w)) = None"
    then have "pending (advance ?w1) = None" using p2 by simp
    from Resubmit_ok[OF this, of ?h] have g: "Get c unmarshal w = (Returns (Inl err),
       (advance (advance ?w1))\<lparr>lists := (lists (advance ?w1))
        (Work_Queue ?h @ '':processing'' := removeAll (Work_key ?h) (lists (advance ?w1) (Work_Queue ?h @ '':processing'')),
         Work_Queue ?h := Work_key ?h # lists (advance ?w1) (Work_Queue ?h))\<rparr>)"
      using get by simp
    show "fst (Get c unmarshal w) = Returns (Inl err)" using g by simp
    show "lists (snd (Get c unmarshal w)) (Queue c) = k # ws" using g by simp
    show "lists (snd (Get c unmarshal w)) (Queue c @ '':processing'')
              = removeAll k (lists w (Queue c @ '':processing''))" using g by simp
    show "hashes (snd (Get c unmarshal w)) = hashes w" using g by simp
  next
    fix rerr assume q: "pending (advance (advance w)) = Some rerr"
    then have "pending (advance ?w1) = Some rerr" using p2 by simp
    from Resubmit_fault[OF this, of ?h] have g: "Get c unmarshal w =
       (Panics (''could not resubmit job: '' @ error_text rerr), advance (advance ?w1))"
      using get by simp
    show "fst (Get c unmarshal w) = Panics (''could not resubmit job: '' @ error_text rerr)"
      using g by simp
    show "lists (snd (Get c unmarshal w)) (Queue c) = ws" using g by simp
    show "lists (snd (Get c unmarshal w)) (Queue c @ '':processing'')
              = k # lists w (Queue c @ '':processing'')" using g by simp
    show "hashes (snd (Get c unmarshal w)) = hashes w" using g by simp
  qed
qed

theorem Get_resubmits_bad_payload_witness:
  "fst (Get \<lparr>Queue = ''q''\<rparr> (\<lambda>d. Inl (CodecError ''bad input'') :: error + unit) one_job_world)
     = Returns (Inl (CodecError ''bad input''))
   \<and> lists (snd (Get \<lparr>Queue = ''q''\<rparr> (\<lambda>d. Inl (CodecError ''bad input'') :: error + unit)
        one_job_world)) ''q'' = [''job'']
   \<and> lists (snd (Get \<lparr>Queue = ''q''\<rparr> (\<lambda>d. Inl (CodecError ''bad input'') :: error + unit)
        one_job_world)) ''q:processing'' = []
   \<and> fst (Get \<lparr>Queue = ''q''\<rparr> (\<lambda>d. Inl (CodecError ''bad input'') :: error + unit)
        (one_job_world\<lparr>faults := [None, None, Some (StoreError ''EOF'')]\<rparr>))
     = Panics ''could not resubmit job: EOF''"
  using Get_resubmits_bad_payload[of one_job_world "\<lparr>Queue = ''q''\<rparr>" "[]" "''job''"
      "CodecError ''bad input''" "\<lambda>d. Inl (CodecError ''bad input'') :: error + unit"]
    Get_resubmits_bad_payload[of "one_job_world\<lparr>faults := [None, None, Some (StoreError ''EOF'')]\<rparr>"
      "\<lparr>Queue = ''q''\<rparr>" "[]" "''job''"
      "CodecError ''bad input''" "\<lambda>d. Inl (CodecError ''bad input'') :: error + unit"]
  by (simp add: one_job_world_def empty_world_def pending_def advance_def)

text \<open>
  C9. For a handle \<open>h\<close> of queue \<open>c\<close> whose job \<open>j\<close> is indexed, Resubmit removes the
  key from the processing list and pushes it on the head of the waiting list in
  one batch and leaves every hash, the dedup index among them, as it was; IsQueued
  on \<open>j\<close> then reports true and Submit of \<open>j\<close> is rejected with ErrAlreadyQueued
  without changing a list or a hash.
\<close>

theorem Resubmit_leaves_index:
  assumes batch: "pending w = None"
    and handle: "Work_Queue h = Queue c" "jobQueueMarshal j = (Work_key h, p, None)"
    and indexed: "hashes w (Queue c @ '':payload'') (Work_key h) \<noteq> None"
  shows "fst (Resubmit h w) = None
    \<and> lists (snd (Resubmit h w)) (Queue c @ '':processing'')
        = removeAll (Work_key h) (lists w (Queue c @ '':processing''))
    \<and> lists (snd (Resubmit h w)) (Queue c) = Work_key h # lists w (Queue c)
    \<and> hashes (snd (Resubmit h w)) = hashes w
    \<and> (pending (advance w) = None \<longrightarrow>
          fst (IsQueued c j (snd (Resubmit h w))) = (True, None))
    \<and> fst (Submit c j (snd (Resubmit h w))) = Some ErrAlreadyQueued
    \<and> lists (snd (Submit c j (snd (Resubmit h w)))) = lists (snd (Resubmit h w))
    \<and> hashes (snd (Submit c j (snd (Resubmit h w)))) = hashes w"
proof -
  let ?w' = "snd (Resubmit h w)"
  have r: "Resubmit h w = (None, (advance w)\<lparr>lists := (lists w)
        (Queue c @ '':processing'' := removeAll (Work_key h) (lists w (Queue c @ '':processing'')),
         Queue c := Work_key h # lists w (Queue c))\<rparr>)"
    using Resubmit_ok[OF batch, of h] handle(1) by simp
  have idx: "hashes ?w' (Queue c @ '':payload'') (Work_key h) \<noteq> None"
    using r indexed by simp
  have pw: "pending ?w' = pending (advance w)" using r by simp
  have sub: "fst (Submit c j ?w') = Some ErrAlreadyQueued
      \<and> lists (snd (Submit c j ?w')) = lists ?w' \<and> hashes (snd (Submit c j ?w')) = hashes ?w'"
  proof (cases "pending ?w'")
    case None
    from Submit_rejected[OF handle(2) None idx] show ?thesis by simp
  next
    case (Some e)
    from IsQueued_fault[OF handle(2) Some, of c] show ?thesis
      using handle(2) by (simp add: Submit_def)
  qed
  have isq: "pending (advance w) = None \<longrightarrow> fst (IsQueued c j ?w') = (True, None)"
  proof
    assume "pending (advance w) = None"
    then have "pending ?w' = None" using pw by simp
    from IsQueued_ok[OF handle(2) this, of c] idx show "fst (IsQueued c j ?w') = (True, None)"
      by simp
  qed
  show ?thesis using r sub isq by simp
qed

theorem Resubmit_leaves_index_witness:
  "fst (Resubmit \<lparr>Work_Queue = ''q'', Work_key = ''[1,2]''\<rparr> held_job_world) = None
   \<and> lists (snd (Resubmit \<lparr>Work_Queue = ''q'', Work_key = ''[1,2]''\<rparr> held_job_world)) ''q''
       = [''[1,2]'']
   \<and> lists (snd (Resubmit \<lparr>Work_Queue = ''q'', Work_key = ''[1,2]''\<rparr> held_job_world))
       ''q:processing'' = []
   \<and> fst (IsQueued \<lparr>Queue = ''q''\<rparr> \<lparr>encoding = Inr ''[1,2]'', queue_key = None\<rparr>
        (snd (Resubmit \<lparr>Work_Queue = ''q'', Work_key = ''[1,2]''\<rparr> held_job_world)))
       = (True, None)
   \<and> fst (Submit \<lparr>Queue = ''q''\<rparr> \<lparr>encoding = Inr ''[1,2]'', queue_key = None\<rparr>
        (snd (Resubmit \<lparr>Work_Queue = ''q'', Work_key = ''[1,2]''\<rparr> held_job_world)))
       = Some ErrAlreadyQueued"
  using Resubmit_leaves_index[of held_job_world "\<lparr>Work_Queue = ''q'', Work_key = ''[1,2]''\<rparr>"
      "\<lparr>Queue = ''q''\<rparr>" "\<lparr>encoding = Inr ''[1,2]'', queue_key = None\<rparr>" "''[1,2]''"]
  by (simp add: held_job_world_def empty_world_def pending_def advance_def
      jobQueueMarshal_def jobQueueRawMarshal_def)

section \<open>Cleanup and crash recovery\<close>

lemma Cleanup_loop_step:
  assumes "pending w = None" "lists w (Queue c @ '':processing'') = ps @ [x]"
  shows "Cleanup_loop c w = Cleanup_loop c ((advance w)\<lparr>lists := (lists w)
      (Queue c @ '':processing'' := ps, Queue c := x # lists w (Queue c))\<rparr>)"
  using assms by (subst Cleanup_loop.simps) (simp add: Do_ok pop_push_def Let_def)

lemma Cleanup_loop_done:
  assumes "pending w = None" "lists w (Queue c @ '':processing'') = []"
  shows "Cleanup_loop c w = (None, advance w)"
  using assms by (subst Cleanup_loop.simps) (simp add: Do_ok pop_push_def)

lemma Cleanup_loop_fault:
  assumes "pending w = Some e"
  shows "Cleanup_loop c w = (Some e, advance w)"
  using assms by (subst Cleanup_loop.simps) (simp add: Do_fault)

lemma Cleanup_loop_drains:
  assumes "faults w = []" "lists w (Queue c @ '':processing'') = ps"
  shows "fst (Cleanup_loop c w) = None
    \<and> lists (snd (Cleanup_loop c w)) (Queue c @ '':processing'') = []
    \<and> lists (snd (Cleanup_loop c w)) (Queue c) = ps @ lists w (Queue c)
    \<and> hashes (snd (Cleanup_loop c w)) = hashes w
    \<and> faults (snd (Cleanup_loop c w)) = []"
  using assms
proof (induction ps arbitrary: w rule: rev_induct)
  case Nil
  then show ?case
    using Cleanup_loop_done[of w c] by (simp add: pending_quiet advance_quiet)
next
  case (snoc x ps)
  let ?w1 = "w\<lparr>lists := (lists w)
      (Queue c @ '':processing'' := ps, Queue c := x # lists w (Queue c))\<rparr>"
  have step: "Cleanup_loop c w = Cleanup_loop c ?w1"
    using Cleanup_loop_step[of w c ps x] snoc.prems by (simp add: pending_quiet advance_quiet)
  have "faults ?w1 = []" "lists ?w1 (Queue c @ '':processing'') = ps"
    using snoc.prems by simp_all
  from snoc.IH[OF this] show ?case unfolding step by simp
qed

lemma decodable_lists [simp]:
  "decodable c unmarshal (w\<lparr>lists := l\<rparr>) = decodable c unmarshal w"
  by (simp add: fun_eq_iff decodable_def)

lemma Gets_order:
  assumes "faults w = []" "list_all (decodable c unmarshal w) (lists w (Queue c))"
    "n \<le> length (lists w (Queue c))"
  shows "fst (Gets n c unmarshal w) = take n (rev (lists w (Queue c)))"
  using assms
proof (induction n arbitrary: w)
  case 0
  then show ?case by simp
next
  case (Suc n)
  then obtain ws k where ws: "lists w (Queue c) = ws @ [k]"
    by (cases "lists w (Queue c)" rule: rev_cases) auto
  with Suc.prems have "decodable c unmarshal w k" by simp
  then obtain d v where d: "hashes w (Queue c @ '':payload'') k = Some d" "unmarshal d = Inr v"
    by (auto simp: decodable_def split: option.splits sum.splits)
  let ?w1 = "w\<lparr>lists := (lists w)(Queue c := ws,
        Queue c @ '':processing'' := k # lists w (Queue c @ '':processing''))\<rparr>"
  have g: "Get c unmarshal w = (Returns (Inr (\<lparr>Work_Queue = Queue c, Work_key = k\<rparr>, v)), ?w1)"
    using Get_ok[of w c ws k d unmarshal v] ws d Suc.prems(1)
    by (simp add: pending_quiet advance_quiet)
  have "faults ?w1 = []" using Suc.prems by simp
  moreover have "list_all (decodable c unmarshal ?w1) (lists ?w1 (Queue c))"
    using Suc.prems(2) ws by simp
  moreover have "n \<le> length (lists ?w1 (Queue c))" using Suc.prems(3) ws by simp
  ultimately have "fst (Gets n c unmarshal ?w1) = take n (rev (lists ?w1 (Queue c)))"
    by (rule Suc.IH)
  then show ?case using g ws by (simp add: split_beta)
qed

text \<open>
  C7. A job \<open>J\<close> that a Get moved into the processing list, and whose consumer
  stopped without Complete or Resubmit, is still there. With a healthy connection
  Cleanup returns nil, leaves the processing list empty and the waiting list
  extended at its head by the former processing list (every round moves the tail
  of processing to the head of waiting), and touches no hash; when the payloads
  decode, the Get calls that follow hand out \<open>J\<close> again. Cleanup on an empty
  processing list returns nil and changes nothing.
\<close>

theorem Cleanup_returns_abandoned_jobs:
  assumes quiet: "faults w = []"
    and abandoned: "J \<in> set (lists w (Queue c @ '':processing''))"
    and payloads: "list_all (decodable c unmarshal w)
                     (lists w (Queue c @ '':processing'') @ lists w (Queue c))"
  shows "fst (Cleanup c w) = None
    \<and> lists (snd (Cleanup c w)) (Queue c @ '':processing'') = []
    \<and> lists (snd (Cleanup c w)) (Queue c)
        = lists w (Queue c @ '':processing'') @ lists w (Queue c)
    \<and> hashes (snd (Cleanup c w)) = hashes w
    \<and> J \<in> set (fst (Gets (length (lists (snd (Cleanup c w)) (Queue c))) c unmarshal
                      (snd (Cleanup c w))))
    \<and> (\<forall>w0. faults w0 = [] \<and> lists w0 (Queue c @ '':processing'') = [] \<longrightarrow>
          Cleanup c w0 = (None, w0))
    \<and> (\<forall>ps x. lists w (Queue c @ '':processing'') = ps @ [x] \<longrightarrow>
          Cleanup c w = Cleanup c (w\<lparr>lists := (lists w)
            (Queue c @ '':processing'' := ps, Queue c := x # lists w (Queue c))\<rparr>))"
proof -
  let ?w' = "snd (Cleanup c w)"
  have d: "fst (Cleanup c w) = None
    \<and> lists ?w' (Queue c @ '':processing'') = []
    \<and> lists ?w' (Queue c) = lists w (Queue c @ '':processing'') @ lists w (Queue c)
    \<and> hashes ?w' = hashes w \<and> faults ?w' = []"
    unfolding Cleanup_def using Cleanup_loop_drains[OF quiet refl] by simp
  have "decodable c unmarshal ?w' = decodable c unmarshal w"
    using d by (simp add: fun_eq_iff decodable_def)
  then have "list_all (decodable c unmarshal ?w') (lists ?w' (Queue c))"
    using payloads d by simp
  from Gets_order[OF _ this order_refl] d
  have "fst (Gets (length (lists ?w' (Queue c))) c unmarshal ?w') = rev (lists ?w' (Queue c))"
    by simp
  then have j: "J \<in> set (fst (Gets (length (lists ?w' (Queue c))) c unmarshal ?w'))"
    using abandoned d by simp
  have "\<forall>w0. faults w0 = [] \<and> lists w0 (Queue c @ '':processing'') = [] \<longrightarrow>
          Cleanup c w0 = (None, w0)"
    unfolding Cleanup_def using Cleanup_loop_done[of _ c]
    by (simp add: pending_quiet advance_quiet)
  moreover have "\<forall>ps x. lists w (Queue c @ '':processing'') = ps @ [x] \<longrightarrow>
          Cleanup c w = Cleanup c (w\<lparr>lists := (lists w)
            (Queue c @ '':processing'' := ps, Queue c := x # lists w (Queue c))\<rparr>)"
    unfolding Cleanup_def using Cleanup_loop_step[of w c] quiet
    by (simp add: pending_quiet advance_quiet)
  ultimately show ?thesis using d j by simp
qed

theorem Cleanup_returns_abandoned_jobs_witness:
  "fst (Cleanup \<lparr>Queue = ''q''\<rparr> crashed_world) = None
   \<and> lists (snd (Cleanup \<lparr>Queue = ''q''\<rparr> crashed_world)) ''q:processing'' = []
   \<and> lists (snd (Cleanup \<lparr>Queue = ''q''\<rparr> crashed_world)) ''q'' = [''[1,2]'', ''[3]'']
   \<and> ''[1,2]'' \<in> set (fst (Gets (Suc (Suc 0)) \<lparr>Queue = ''q''\<rparr> (\<lambda>d. Inr d :: error + bytes)
        (snd (Cleanup \<lparr>Queue = ''q''\<rparr> crashed_world))))"
  using Cleanup_returns_abandoned_jobs[of crashed_world "''[1,2]''" "\<lparr>Queue = ''q''\<rparr>"
      "\<lambda>d. Inr d :: error + bytes"]
  by (auto simp: crashed_world_def empty_world_def decodable_def simp del: Gets.simps)

section \<open>Queue conservation\<close>

lemma store_ok_conserved: "store_ok c w \<Longrightarrow> conserved c w k"
  by (auto simp: store_ok_def conserved_def Let_def)

lemma store_ok_frame:
  "lists w' = lists w \<Longrightarrow> hashes w' = hashes w \<Longrightarrow> store_ok c w' = store_ok c w"
  by (simp add: store_ok_def)

lemma handles_ok_frame:
  "lists w' = lists w \<Longrightarrow> handles_ok c w' hs = handles_ok c w hs"
  by (simp add: handles_ok_def)

lemma Submit_effect:
  "(lists (snd (Submit c j w)) = lists w \<and> hashes (snd (Submit c j w)) = hashes w)
   \<or> (\<exists>k p. hashes w (Queue c @ '':payload'') k = None
         \<and> lists (snd (Submit c j w)) = (lists w)(Queue c := k # lists w (Queue c))
         \<and> hashes (snd (Submit c j w))
             = (hashes w)(Queue c @ '':payload'' := (hashes w (Queue c @ '':payload''))(k \<mapsto> p)))"
proof -
  obtain k p err where m: "jobQueueMarshal j = (k, p, err)" by (cases "jobQueueMarshal j") auto
  show ?thesis
  proof (cases err)
    case (Some e)
    with m show ?thesis by (simp add: Submit_def IsQueued_unencodable)
  next
    case None
    note m = m[unfolded None]
    show ?thesis
    proof (cases "pending w")
      case (Some e)
      then show ?thesis using m by (simp add: Submit_def IsQueued_fault)
    next
      case None
      note p1 = None
      show ?thesis
      proof (cases "hashes w (Queue c @ '':payload'') k")
        case (Some d)
        then show ?thesis using Submit_rejected[OF m p1] by simp
      next
        case None
        note free = None
        show ?thesis
        proof (cases "pending (advance w)")
          case None
          from Submit_ok[OF m p1 free None] free show ?thesis by auto
        next
          case (Some e)
          then show ?thesis using m p1 free by (simp add: Submit_def IsQueued_ok Do_fault)
        qed
      qed
    qed
  qed
qed

lemma Submit_keeps:
  assumes "store_ok c w" "handles_ok c w hs"
  shows "store_ok c (snd (Submit c j w)) \<and> handles_ok c (snd (Submit c j w)) hs"
  using Submit_effect[of c j w]
proof (elim disjE exE conjE)
  assume "lists (snd (Submit c j w)) = lists w" "hashes (snd (Submit c j w)) = hashes w"
  then show ?thesis
    using assms store_ok_frame[of "snd (Submit c j w)" w c]
      handles_ok_frame[of "snd (Submit c j w)" w c hs] by simp
next
  fix k p
  assume free: "hashes w (Queue c @ '':payload'') k = None"
    and l: "lists (snd (Submit c j w)) = (lists w)(Queue c := k # lists w (Queue c))"
    and h: "hashes (snd (Submit c j w))
             = (hashes w)(Queue c @ '':payload'' := (hashes w (Queue c @ '':payload''))(k \<mapsto> p))"
  from free assms(1) have "k \<notin> set (lists w (Queue c) @ lists w (Queue c @ '':processing''))"
    by (auto simp: store_ok_def)
  then show ?thesis using assms l h by (auto simp: store_ok_def handles_ok_def)
qed

lemma Get_effect:
  "hashes (snd (Get c u w)) = hashes w \<and>
   ((lists (snd (Get c u w)) (Queue c) = lists w (Queue c)
      \<and> lists (snd (Get c u w)) (Queue c @ '':processing'') = lists w (Queue c @ '':processing'')
      \<and> (\<forall>h v. fst (Get c u w) \<noteq> Returns (Inr (h, v))))
    \<or> (\<exists>ws k. lists w (Queue c) = ws @ [k]
      \<and> lists (snd (Get c u w)) (Queue c) = ws
      \<and> lists (snd (Get c u w)) (Queue c @ '':processing'') = k # lists w (Queue c @ '':processing'')
      \<and> (\<forall>h v. fst (Get c u w) = Returns (Inr (h, v))
            \<longrightarrow> h = \<lparr>Work_Queue = Queue c, Work_key = k\<rparr>))
    \<or> (\<exists>ws k. lists w (Queue c) = ws @ [k]
      \<and> lists (snd (Get c u w)) (Queue c) = k # ws
      \<and> lists (snd (Get c u w)) (Queue c @ '':processing'')
          = removeAll k (lists w (Queue c @ '':processing''))
      \<and> (\<forall>h v. fst (Get c u w) \<noteq> Returns (Inr (h, v)))))"
proof (cases "lists w (Queue c)" rule: rev_cases)
  case Nil
  then show ?thesis
    by (cases "pending w") (simp_all add: Get_def Do_fault)
next
  case (snoc ws k)
  show ?thesis
  proof (cases "pending w")
    case (Some e)
    then show ?thesis using snoc by (simp add: Get_def Do_fault)
  next
    case None
    note pop = Get_pop[OF snoc None]
    let ?w1 = "(advance w)\<lparr>lists := (lists w)(Queue c := ws,
        Queue c @ '':processing'' := k # lists w (Queue c @ '':processing''))\<rparr>"
    let ?w2 = "(advance (advance w))\<lparr>lists := (lists w)(Queue c := ws,
        Queue c @ '':processing'' := k # lists w (Queue c @ '':processing''))\<rparr>"
    let ?h = "\<lparr>Work_Queue = Queue c, Work_key = k\<rparr>"
    obtain r2 where lookup: "Do (HGET (Queue c @ '':payload'') k) ?w1 = (r2, ?w2)"
      by (cases "pending (advance w)"; cases "hashes w (Queue c @ '':payload'') k")
         (simp_all add: Do_ok Do_fault)
    have g: "Get c u w =
       (case (case redis_Bytes r2 of Inl e \<Rightarrow> Inl e | Inr d \<Rightarrow> u d) of
          Inl err \<Rightarrow>
            (case Resubmit ?h ?w2 of
               (Some rerr, w3) \<Rightarrow> (Panics (''could not resubmit job: '' @ error_text rerr), w3)
             | (None, w3) \<Rightarrow> (Returns (Inl err), w3))
        | Inr v \<Rightarrow> (Returns (Inr (?h, v)), ?w2))"
      unfolding Get_def Let_def using snoc None pop lookup by simp
    show ?thesis
    proof (cases "case redis_Bytes r2 of Inl e \<Rightarrow> Inl e | Inr d \<Rightarrow> u d")
      case (Inr v)
      then show ?thesis using g snoc by simp
    next
      case (Inl err)
      show ?thesis
      proof (cases "pending ?w2")
        case None
        from Resubmit_ok[OF this, of ?h] show ?thesis using g Inl snoc by simp
      next
        case (Some rerr)
        from Resubmit_fault[OF this, of ?h] show ?thesis using g Inl snoc by simp
      qed
    qed
  qed
qed

lemma Get_keeps:
  assumes "store_ok c w" "handles_ok c w hs"
  shows "store_ok c (snd (Get c u w))
    \<and> handles_ok c (snd (Get c u w))
         (case fst (Get c u w) of Returns (Inr (h, v)) \<Rightarrow> h # hs | _ \<Rightarrow> hs)"
proof -
  let ?g = "Get c u w"
  have hs_same: "(\<forall>h v. fst ?g \<noteq> Returns (Inr (h, v))) \<Longrightarrow>
      (case fst ?g of Returns (Inr (h, v)) \<Rightarrow> h # hs | _ \<Rightarrow> hs) = hs"
    by (auto split: outcome.splits sum.splits)
  from Get_effect[of c u w] have hsh: "hashes (snd ?g) = hashes w" by simp
  from Get_effect[of c u w] consider
    (same) "lists (snd ?g) (Queue c) = lists w (Queue c)"
      "lists (snd ?g) (Queue c @ '':processing'') = lists w (Queue c @ '':processing'')"
      "\<forall>h v. fst ?g \<noteq> Returns (Inr (h, v))"
  | (moved) ws k where "lists w (Queue c) = ws @ [k]" "lists (snd ?g) (Queue c) = ws"
      "lists (snd ?g) (Queue c @ '':processing'') = k # lists w (Queue c @ '':processing'')"
      "\<forall>h v. fst ?g = Returns (Inr (h, v)) \<longrightarrow> h = \<lparr>Work_Queue = Queue c, Work_key = k\<rparr>"
  | (requeued) ws k where "lists w (Queue c) = ws @ [k]" "lists (snd ?g) (Queue c) = k # ws"
      "lists (snd ?g) (Queue c @ '':processing'')
          = removeAll k (lists w (Queue c @ '':processing''))"
      "\<forall>h v. fst ?g \<noteq> Returns (Inr (h, v))"
    by blast
  then show ?thesis
  proof cases
    case same
    then show ?thesis using assms hsh hs_same by (simp add: store_ok_def handles_ok_def)
  next
    case (moved ws k)
    have k: "k \<notin> set (lists w (Queue c @ '':processing''))" "k \<notin> set ws"
      using assms(1) moved(1) by (auto simp: store_ok_def)
    have st: "store_ok c (snd ?g)"
      using assms(1) moved hsh by (auto simp: store_ok_def)
    have "handles_ok c (snd ?g) hs"
      using assms(2) moved by (auto simp: handles_ok_def)
    moreover have "handles_ok c (snd ?g) (\<lparr>Work_Queue = Queue c, Work_key = k\<rparr> # hs)"
      using assms(2) moved k by (auto simp: handles_ok_def)
    ultimately show ?thesis using st moved(4)
      by (auto split: outcome.splits sum.splits)
  next
    case (requeued ws k)
    have k: "k \<notin> set (lists w (Queue c @ '':processing''))" "k \<notin> set ws"
      using assms(1) requeued(1) by (auto simp: store_ok_def)
    then have "removeAll k (lists w (Queue c @ '':processing'')) = lists w (Queue c @ '':processing'')"
      by simp
    then show ?thesis using assms requeued hsh hs_same k
      by (auto simp: store_ok_def handles_ok_def)
  qed
qed

lemma Complete_keeps:
  assumes "store_ok c w" "handles_ok c w hs" "h \<in> set hs"
  shows "store_ok c (snd (Complete h w))
    \<and> handles_ok c (snd (Complete h w))
         (case fst (Complete h w) of None \<Rightarrow> remove1 h hs | Some e \<Rightarrow> hs)"
proof (cases "pending w")
  case (Some e)
  from Complete_def Do_fault[OF Some] have "Complete h w = (Some e, advance w)"
    by (simp add: Complete_def)
  then show ?thesis using assms by (simp add: store_ok_def handles_ok_def)
next
  case None
  have q: "Work_Queue h = Queue c" using assms(2,3) by (auto simp: handles_ok_def list_all_iff)
  have kp: "Work_key h \<in> set (lists w (Queue c @ '':processing''))"
    using assms(2,3) by (auto simp: handles_ok_def)
  then have kq: "Work_key h \<notin> set (lists w (Queue c))"
    using assms(1) by (auto simp: store_ok_def)
  have others: "Work_key ` set (remove1 h hs) \<subseteq> set (lists w (Queue c @ '':processing'')) - {Work_key h}"
    using assms(2,3) by (auto simp: handles_ok_def distinct_map inj_on_def)
  have dist: "distinct (map Work_key (remove1 h hs))"
    using assms(2) by (auto simp: handles_ok_def distinct_map intro: inj_on_subset)
  have all: "list_all (\<lambda>h. Work_Queue h = Queue c) (remove1 h hs)"
    using assms(2) by (auto simp: handles_ok_def list_all_iff dest: notin_set_remove1)
  from Complete_ok[OF None, of h] q
  have "store_ok c (snd (Complete h w))" using assms(1) kq
    by (auto simp: store_ok_def distinct_removeAll)
  moreover from Complete_ok[OF None, of h] q
  have "handles_ok c (snd (Complete h w)) (remove1 h hs)" "fst (Complete h w) = None"
    using others dist all by (auto simp: handles_ok_def)
  ultimately show ?thesis by simp
qed

lemma Resubmit_keeps:
  assumes "store_ok c w" "handles_ok c w hs" "h \<in> set hs"
  shows "store_ok c (snd (Resubmit h w))
    \<and> handles_ok c (snd (Resubmit h w))
         (case fst (Resubmit h w) of None \<Rightarrow> remove1 h hs | Some e \<Rightarrow> hs)"
proof (cases "pending w")
  case (Some e)
  from Resubmit_fault[OF Some, of h] show ?thesis
    using assms by (simp add: store_ok_def handles_ok_def)
next
  case None
  have q: "Work_Queue h = Queue c" using assms(2,3) by (auto simp: handles_ok_def list_all_iff)
  have kp: "Work_key h \<in> set (lists w (Queue c @ '':processing''))"
    using assms(2,3) by (auto simp: handles_ok_def)
  then have kq: "Work_key h \<notin> set (lists w (Queue c))"
    using assms(1) by (auto simp: store_ok_def)
  have others: "Work_key ` set (remove1 h hs) \<subseteq> set (lists w (Queue c @ '':processing'')) - {Work_key h}"
    using assms(2,3) by (auto simp: handles_ok_def distinct_map inj_on_def)
  have dist: "distinct (map Work_key (remove1 h hs))"
    using assms(2) by (auto simp: handles_ok_def distinct_map intro: inj_on_subset)
  have all: "list_all (\<lambda>h. Work_Queue h = Queue c) (remove1 h hs)"
    using assms(2) by (auto simp: handles_ok_def list_all_iff dest: notin_set_remove1)
  from Resubmit_ok[OF None, of h] q
  have "store_ok c (snd (Resubmit h w))" using assms(1) kq kp
    by (auto simp: store_ok_def distinct_removeAll)
  moreover from Resubmit_ok[OF None, of h] q
  have "handles_ok c (snd (Resubmit h w)) (remove1 h hs)" "fst (Resubmit h w) = None"
    using others dist all by (auto simp: handles_ok_def)
  ultimately show ?thesis by simp
qed

lemma step_keeps:
  assumes "store_ok c (fst s)" "handles_ok c (fst s) (snd s)"
  shows "store_ok c (fst (step c u x s)) \<and> handles_ok c (fst (step c u x s)) (snd (step c u x s))"
proof -
  obtain w hs where s: "s = (w, hs)" by (cases s)
  show ?thesis
  proof (cases x)
    case (Op_Submit j)
    then show ?thesis using Submit_keeps[of c w hs j] assms s by simp
  next
    case Op_Get
    then show ?thesis using Get_keeps[of c w hs u] assms s
      by (auto split: prod.splits outcome.splits sum.splits)
  next
    case (Op_Complete h)
    then show ?thesis using Complete_keeps[of c w hs h] assms s
      by (auto split: prod.splits option.splits)
  next
    case (Op_Resubmit h)
    then show ?thesis using Resubmit_keeps[of c w hs h] assms s
      by (auto split: prod.splits option.splits)
  qed
qed

lemma run_keeps:
  assumes "store_ok c (fst s)" "handles_ok c (fst s) (snd s)"
  shows "store_ok c (fst (run c u xs s)) \<and> handles_ok c (fst (run c u xs s)) (snd (run c u xs s))"
  using assms
proof (induction xs arbitrary: s)
  case Nil
  then show ?case by simp
next
  case (Cons x xs)
  from step_keeps[OF Cons.prems, of u x] Cons.IH[of "step c u x s"] show ?case by simp
qed

lemma pop_keeps:
  assumes "store_ok c w"
  shows "store_ok c (snd (Do (BRPOPLPUSH (Queue c) (Queue c @ '':processing'') 0) w))"
proof (cases "pending w")
  case (Some e)
  then show ?thesis using assms by (simp add: Do_fault store_ok_def)
next
  case None
  show ?thesis
  proof (cases "lists w (Queue c)" rule: rev_cases)
    case Nil
    then show ?thesis using assms None by (simp add: Do_ok pop_push_def store_ok_def)
  next
    case (snoc ws k)
    from Get_pop[OF snoc None] show ?thesis using assms snoc by (auto simp: store_ok_def)
  qed
qed

text \<open>
  C2, as amended. From a consistent store, for every sequence of Submit, Get,
  Complete and Resubmit operations run one after another in which Complete and
  Resubmit are called only on outstanding handles, the store stays consistent:
  after every operation, and after the atomic pop inside a following Get, every
  key is in exactly one of the states absent, waiting, processing. Complete and
  Resubmit change the store by one batch, Submit by at most one after its
  membership check.
\<close>

theorem queue_conservation:
  assumes "store_ok c w" "handles_ok c w hs"
  shows "store_ok c (fst (run c u ops (w, hs)))
    \<and> handles_ok c (fst (run c u ops (w, hs))) (snd (run c u ops (w, hs)))
    \<and> (\<forall>k. conserved c (fst (run c u ops (w, hs))) k)
    \<and> (\<forall>k. conserved c (snd (Do (BRPOPLPUSH (Queue c) (Queue c @ '':processing'') 0)
                              (fst (run c u ops (w, hs))))) k)
    \<and> (\<forall>h w'. snd (Complete h w')
          = snd (Do (EXEC [LREM (Work_Queue h @ '':processing'') 0 (Work_key h),
                           HDEL (Work_Queue h @ '':payload'') (Work_key h)]) w'))
    \<and> (\<forall>h w'. snd (Resubmit h w')
          = snd (Do (EXEC [LREM (Work_Queue h @ '':processing'') 0 (Work_key h),
                           LPUSH (Work_Queue h) (Work_key h)]) w'))
    \<and> (\<forall>j w'. snd (Submit c j w') = snd (IsQueued c j w')
          \<or> snd (Submit c j w')
              = snd (Do (EXEC [LPUSH (Queue c) (fst (jobQueueMarshal j)),
                               HSET (Queue c @ '':payload'') (fst (jobQueueMarshal j))
                                 (fst (snd (jobQueueMarshal j)))])
                      (snd (IsQueued c j w'))))"
proof -
  let ?s = "run c u ops (w, hs)"
  from run_keeps[of c "(w, hs)" u ops] assms
  have ok: "store_ok c (fst ?s)" "handles_ok c (fst ?s) (snd ?s)" by simp_all
  from pop_keeps[OF ok(1)] store_ok_conserved ok
  have inv: "store_ok c (fst ?s) \<and> handles_ok c (fst ?s) (snd ?s)
    \<and> (\<forall>k. conserved c (fst ?s) k)
    \<and> (\<forall>k. conserved c (snd (Do (BRPOPLPUSH (Queue c) (Queue c @ '':processing'') 0)
                              (fst ?s))) k)"
    by blast
  have batches: "\<forall>h w'. snd (Complete h w')
          = snd (Do (EXEC [LREM (Work_Queue h @ '':processing'') 0 (Work_key h),
                           HDEL (Work_Queue h @ '':payload'') (Work_key h)]) w')"
    "\<forall>h w'. snd (Resubmit h w')
          = snd (Do (EXEC [LREM (Work_Queue h @ '':processing'') 0 (Work_key h),
                           LPUSH (Work_Queue h) (Work_key h)]) w')"
    by (simp_all add: Complete_def Resubmit_def split_beta)
  have submit: "\<forall>j w'. snd (Submit c j w') = snd (IsQueued c j w')
          \<or> snd (Submit c j w')
              = snd (Do (EXEC [LPUSH (Queue c) (fst (jobQueueMarshal j)),
                               HSET (Queue c @ '':payload'') (fst (jobQueueMarshal j))
                                 (fst (snd (jobQueueMarshal j)))])
                      (snd (IsQueued c j w')))"
    by (simp add: Submit_def split_beta)
  from inv batches submit show ?thesis by blast
qed

text \<open>
  C2, as stated, speaks of every sequence of the four operations. Resubmit on a
  handle that was already resubmitted pushes the key a second time: after Submit,
  Get, Resubmit, Resubmit and Get the key is in the waiting list and in the
  processing list at once.
\<close>

theorem handle_reuse_breaks_conservation:
  "fst (Get \<lparr>Queue = ''q''\<rparr> (Inr :: bytes \<Rightarrow> error + bytes)
         (snd (Submit \<lparr>Queue = ''q''\<rparr> \<lparr>encoding = Inr ''[1,2]'', queue_key = None\<rparr> empty_world)))
     = Returns (Inr (\<lparr>Work_Queue = ''q'', Work_key = ''[1,2]''\<rparr>, ''[1,2]''))
   \<and> lists misuse_world ''q'' = [''[1,2]'']
   \<and> lists misuse_world ''q:processing'' = [''[1,2]'']
   \<and> \<not> conserved \<lparr>Queue = ''q''\<rparr> misuse_world ''[1,2]''"
  by (simp add: misuse_world_def conserved_def Let_def Submit_def IsQueued_def Get_def
      Resubmit_def Do_def pending_def advance_def empty_world_def pop_push_def lrem_def
      jobQueueMarshal_def jobQueueRawMarshal_def)

theorem queue_conservation_witness:
  "store_ok \<lparr>Queue = ''q''\<rparr> empty_world
   \<and> handles_ok \<lparr>Queue = ''q''\<rparr> empty_world []
   \<and> lists (fst (run \<lparr>Queue = ''q''\<rparr> (Inr :: bytes \<Rightarrow> error + bytes)
        [Op_Submit \<lparr>encoding = Inr ''[1,2]'', queue_key = None\<rparr>, Op_Get,
         Op_Resubmit \<lparr>Work_Queue = ''q'', Work_key = ''[1,2]''\<rparr>,
         Op_Resubmit \<lparr>Work_Queue = ''q'', Work_key = ''[1,2]''\<rparr>, Op_Get]
        (empty_world, []))) ''q:processing'' = [''[1,2]'']
   \<and> conserved \<lparr>Queue = ''q''\<rparr> (fst (run \<lparr>Queue = ''q''\<rparr> (Inr :: bytes \<Rightarrow> error + bytes)
        [Op_Submit \<lparr>encoding = Inr ''[1,2]'', queue_key = None\<rparr>, Op_Get,
         Op_Resubmit \<lparr>Work_Queue = ''q'', Work_key = ''[1,2]''\<rparr>,
         Op_Resubmit \<lparr>Work_Queue = ''q'', Work_key = ''[1,2]''\<rparr>, Op_Get]
        (empty_world, []))) ''[1,2]''"
proof -
  have a: "store_ok \<lparr>Queue = ''q''\<rparr> empty_world" "handles_ok \<lparr>Queue = ''q''\<rparr> empty_world []"
    by (simp_all add: store_ok_def handles_ok_def empty_world_def)
  have b: "lists (fst (run \<lparr>Queue = ''q''\<rparr> (Inr :: bytes \<Rightarrow> error + bytes)
        [Op_Submit \<lparr>encoding = Inr ''[1,2]'', queue_key = None\<rparr>, Op_Get,
         Op_Resubmit \<lparr>Work_Queue = ''q'', Work_key = ''[1,2]''\<rparr>,
         Op_Resubmit \<lparr>Work_Queue = ''q'', Work_key = ''[1,2]''\<rparr>, Op_Get]
        (empty_world, []))) ''q:processing'' = [''[1,2]'']"
    by (simp add: Let_def Submit_def IsQueued_def Get_def
      Resubmit_def Do_def pending_def advance_def empty_world_def pop_push_def lrem_def
      jobQueueMarshal_def jobQueueRawMarshal_def)
  from queue_conservation[OF a, of "Inr :: bytes \<Rightarrow> error + bytes"] a b show ?thesis by blast
qed

section \<open>Acquiring the lock\<close>

lemma ms_positive: "1000000 \<le> e \<Longrightarrow> 0 < e sdiv (1000000::int)"
  by (simp add: signed_divide_int_def sgn_if pos_imp_zdiv_pos_iff)

lemma ms_nonpositive: "e < 1000000 \<Longrightarrow> e sdiv (1000000::int) \<le> 0"
proof (cases "0 \<le> e")
  case True
  assume "e < 1000000"
  with True have "e div 1000000 = 0" by simp
  with True show ?thesis by (simp add: signed_divide_int_def sgn_if)
next
  case False
  then have "0 \<le> \<bar>e\<bar> div 1000000" by (simp add: pos_imp_zdiv_nonneg_iff)
  with False show ?thesis by (simp add: signed_divide_int_def sgn_if)
qed

lemma attempt_fault: "pending w = Some e \<Longrightarrow> attempt l w = (Inl e, advance w)"
  by (simp add: attempt_def Do_fault)


lemma attempt_free:
  "pending w = None \<Longrightarrow> 1000000 \<le> Expiry l \<Longrightarrow> \<not> live w (Key l)
    \<Longrightarrow> attempt l w = (Inr True,
          (advance w)\<lparr>strs := (strs w)(Key l \<mapsto>
              (''1'', clock w + Expiry l sdiv 1000000 * 1000000))\<rparr>)"
  using ms_positive[of "Expiry l"] by (simp add: attempt_def Do_ok acquire_cmd_def)

lemma attempt_bad_expiry:
  "pending w = None \<Longrightarrow> Expiry l < 1000000
    \<Longrightarrow> attempt l w = (Inl (StoreError ''ERR invalid expire time in set''), advance w)"
  using ms_nonpositive[of "Expiry l"] by (simp add: attempt_def Do_ok acquire_cmd_def)

lemma Sleep_simps [simp]:
  "clock (Sleep env d w) = max (clock (env w)) (clock w + (if 0 < d then d else 0) + 1)"
  "faults (Sleep env d w) = faults w"
  by (simp_all add: Sleep_def)




lemma LockWait_loop_acquires:
  assumes "pending w = None" "1000000 \<le> Expiry l" "\<not> live w (Key l)"
  shows "LockWait_loop env l expire w =
    (None, l\<lparr>task := Some \<lparr>pc = HB_Renew, period = Expiry l sdiv 4,
                            next_tick = clock w + Expiry l sdiv 4\<rparr>\<rparr>,
     (advance w)\<lparr>strs := (strs w)(Key l \<mapsto>
              (''1'', clock w + Expiry l sdiv 1000000 * 1000000))\<rparr>)"
  using assms by (subst LockWait_loop.simps) (simp add: attempt_free)




section \<open>The renewal task\<close>






lemma heartbeat_step_exit:
  assumes "task l = Some t" "pc t = HB_Exit"
  shows "heartbeat_step ch (l, w) = (l, w)"
  using assms by (simp add: heartbeat_step_def)


lemma acquired_lock_eq:
  "LockWait (\<lambda>w. w) (NewLock ''lock'') 0 empty_world =
     (Returns None,
      (NewLock ''lock'')\<lparr>mutex := True,
         task := Some \<lparr>pc = HB_Renew, period = 500000000, next_tick = 500000000\<rparr>\<rparr>,
      empty_world\<lparr>strs := [''lock'' \<mapsto> (''1'', 2000000000)]\<rparr>)"
proof -
  let ?l = "(NewLock ''lock'')\<lparr>mutex := True\<rparr>"
  have "pending empty_world = None" "1000000 \<le> Expiry ?l" "\<not> live empty_world (Key ?l)"
    by (simp_all add: pending_def empty_world_def NewLock_def live_def)
  from LockWait_loop_acquires[OF this, of "\<lambda>w. w" "clock empty_world + 0"]
  show ?thesis
    by (simp add: LockWait_def NewLock_def empty_world_def advance_def signed_divide_int_def)
qed

lemma acquired_lock_val:
  "acquired_lock =
     ((NewLock ''lock'')\<lparr>mutex := True,
         task := Some \<lparr>pc = HB_Renew, period = 500000000, next_tick = 500000000\<rparr>\<rparr>,
      empty_world\<lparr>strs := [''lock'' \<mapsto> (''1'', 2000000000)]\<rparr>)"
  by (simp add: acquired_lock_def acquired_lock_eq)



section \<open>Unlock after the renewal task has died\<close>

lemma stuck_step:
  assumes "stuck u l"
  shows "stuck (fst (sys_step e (u, l, w))) (fst (snd (sys_step e (u, l, w))))
    \<and> (u = UL_Wait \<or> e = Ev_Unlock \<longrightarrow> fst (sys_step e (u, l, w)) = UL_Wait)"
proof (cases e)
  case Ev_Unlock
  then show ?thesis using assms
    by (cases u) (auto simp: stuck_def Unlock_step_def chan_send_def chan_recv_def)
next
  case (Ev_Beat ch)
  have "heartbeat_step ch (l, w) = (l, w)"
    using assms by (auto simp: stuck_def heartbeat_step_def split: option.splits)
  then show ?thesis using assms Ev_Beat by simp
next
  case (Ev_Elapse d)
  then show ?thesis using assms by simp
qed

lemma stuck_run:
  assumes "stuck (fst s) (fst (snd s))"
  shows "stuck (fst (sys_run evs s)) (fst (snd (sys_run evs s)))
    \<and> (fst s = UL_Wait \<or> Ev_Unlock \<in> set evs \<longrightarrow> fst (sys_run evs s) = UL_Wait)"
  using assms
proof (induction evs arbitrary: s)
  case Nil
  then show ?case by simp
next
  case (Cons e evs)
  obtain u l w where s: "s = (u, l, w)" by (cases s)
  from stuck_step[of u l e w] Cons.prems s
  have st: "stuck (fst (sys_step e s)) (fst (snd (sys_step e s)))"
    and wt: "u = UL_Wait \<or> e = Ev_Unlock \<longrightarrow> fst (sys_step e s) = UL_Wait"
    by simp_all
  from Cons.IH[OF st] wt s show ?case by auto
qed

text \<open>
  C10. The renewal task has exited after sending a store error on \<open>errors\<close>; \<open>stop\<close>
  and \<open>stopped\<close> are empty and the guard is held. Then under every schedule of
  Unlock steps, heartbeat steps and time, the Unlock call has not returned and
  the guard is still held; once Unlock has run at all it sits at its receive from
  \<open>stopped\<close>, with its value buffered on \<open>stop\<close> and \<open>stopped\<close> empty.
\<close>

theorem Unlock_blocks_after_heartbeat_error:
  assumes dead: "task l = Some t" "pc t = HB_Exit" "errors l = [e]"
    and chans: "stop l = []" "stopped l = []"
    and held: "mutex l"
  shows "fst (sys_run evs (UL_Stop, l, w)) \<noteq> UL_Returned
    \<and> mutex (fst (snd (sys_run evs (UL_Stop, l, w))))
    \<and> (Ev_Unlock \<in> set evs \<longrightarrow>
          fst (sys_run evs (UL_Stop, l, w)) = UL_Wait
        \<and> stop (fst (snd (sys_run evs (UL_Stop, l, w)))) = [True]
        \<and> stopped (fst (snd (sys_run evs (UL_Stop, l, w)))) = [])"
proof -
  have "stuck UL_Stop l" using assms by (simp add: stuck_def)
  from stuck_run[of "(UL_Stop, l, w)" evs] this
  have st: "stuck (fst (sys_run evs (UL_Stop, l, w))) (fst (snd (sys_run evs (UL_Stop, l, w))))"
    and wt: "Ev_Unlock \<in> set evs \<longrightarrow> fst (sys_run evs (UL_Stop, l, w)) = UL_Wait"
    by simp_all
  from st have "fst (sys_run evs (UL_Stop, l, w)) \<noteq> UL_Returned"
    by (auto simp: stuck_def)
  moreover from st have "mutex (fst (snd (sys_run evs (UL_Stop, l, w))))"
    by (simp add: stuck_def)
  moreover from st have "stopped (fst (snd (sys_run evs (UL_Stop, l, w)))) = []"
    by (simp add: stuck_def)
  moreover from st have "fst (sys_run evs (UL_Stop, l, w)) = UL_Wait \<longrightarrow>
      stop (fst (snd (sys_run evs (UL_Stop, l, w)))) = [True]"
    by (auto simp: stuck_def)
  ultimately show ?thesis using wt by blast
qed

lemma dead_heartbeat_val:
  "dead_heartbeat =
     ((NewLock ''lock'')\<lparr>mutex := True, errors := [StoreError ''EOF''],
          task := Some \<lparr>pc = HB_Exit, period = 500000000, next_tick = 500000000\<rparr>\<rparr>,
      empty_world\<lparr>strs := [''lock'' \<mapsto> (''1'', 2000000000)]\<rparr>)"
  unfolding dead_heartbeat_def acquired_lock_val
  by (simp add: heartbeat_step_def renew_cmd_def Do_def pending_def advance_def
      chan_send_def NewLock_def empty_world_def)

theorem Unlock_blocks_after_heartbeat_error_witness:
  "fst (sys_run [Ev_Unlock, Ev_Beat Take_stop, Ev_Elapse 1000000000, Ev_Unlock]
         (UL_Stop, fst dead_heartbeat, snd dead_heartbeat)) = UL_Wait
   \<and> mutex (fst (snd (sys_run [Ev_Unlock, Ev_Beat Take_stop, Ev_Elapse 1000000000, Ev_Unlock]
         (UL_Stop, fst dead_heartbeat, snd dead_heartbeat))))
   \<and> stop (fst (snd (sys_run [Ev_Unlock, Ev_Beat Take_stop, Ev_Elapse 1000000000, Ev_Unlock]
         (UL_Stop, fst dead_heartbeat, snd dead_heartbeat)))) = [True]
   \<and> errors (fst dead_heartbeat) = [StoreError ''EOF'']"
proof -
  have h: "task (fst dead_heartbeat)
      = Some \<lparr>pc = HB_Exit, period = 500000000, next_tick = 500000000\<rparr>"
    "pc \<lparr>pc = HB_Exit, period = 500000000, next_tick = 500000000\<rparr> = HB_Exit"
    "errors (fst dead_heartbeat) = [StoreError ''EOF'']"
    "stop (fst dead_heartbeat) = []" "stopped (fst dead_heartbeat) = []"
    "mutex (fst dead_heartbeat)"
    by (simp_all add: dead_heartbeat_val NewLock_def)
  from Unlock_blocks_after_heartbeat_error[OF h,
      of "[Ev_Unlock, Ev_Beat Take_stop, Ev_Elapse 1000000000, Ev_Unlock]" "snd dead_heartbeat"]
    h(3)
  show ?thesis by simp
qed

section \<open>Mutual exclusion\<close>

lemma attempt_on_live:
  assumes "live w (Key l)"
  shows "fst (attempt l w) \<noteq> Inr True"
  using assms
  by (cases "pending w") (auto simp: attempt_def acquire_cmd_def Do_def)

lemma attempt_success:
  assumes "fst (attempt l w) = Inr True"
  shows "\<not> live w (Key l) \<and> live (snd (attempt l w)) (Key l)
    \<and> strs (snd (attempt l w)) (Key l)
        = Some (''1'', clock w + Expiry l sdiv 1000000 * 1000000)"
proof -
  have free: "\<not> live w (Key l)" using assms attempt_on_live by blast
  have p: "pending w = None" using assms by (cases "pending w") (simp_all add: attempt_fault)
  have ms: "0 < Expiry l sdiv 1000000"
    using assms p by (auto simp: attempt_def acquire_cmd_def Do_def split: if_splits)
  have "attempt l w = (Inr True, (advance w)\<lparr>strs := (strs w)(Key l \<mapsto>
              (''1'', clock w + Expiry l sdiv 1000000 * 1000000))\<rparr>)"
    using free p ms by (simp add: attempt_def acquire_cmd_def Do_def)
  then show ?thesis using free ms by (simp add: live_def)
qed

lemma lease_kept_live: "lease_kept k es w \<Longrightarrow> live w k"
  by (cases es) simp_all

lemma no_winner_while_leased:
  "lease_kept k es w \<Longrightarrow> winners k es w = []"
proof (induction es arbitrary: w)
  case Nil
  then show ?case by simp
next
  case (Cons e es)
  then have l: "live w k" and rest: "lease_kept k es (lock_step e w)" by simp_all
  from Cons.IH[OF rest] have ih: "winners k es (lock_step e w) = []" .
  show ?case
  proof (cases e)
    case (Acquire h)
    then show ?thesis using ih l attempt_on_live[of w h] by auto
  qed (use ih in simp_all)
qed

lemma LockWait_loop_success:
  "fst (LockWait_loop env l expire w) = None \<Longrightarrow>
     \<exists>w'. fst (attempt l w') = Inr True
        \<and> snd (snd (LockWait_loop env l expire w)) = snd (attempt l w')"
proof (induction env l expire w rule: LockWait_loop.induct)
  case (1 env l expire w)
  obtain r w1 where a: "attempt l w = (r, w1)" by (cases "attempt l w")
  show ?case
  proof (cases r)
    case (Inl err)
    with a "1.prems" show ?thesis by (subst (asm) LockWait_loop.simps) simp
  next
    case (Inr acquired)
    show ?thesis
    proof (cases acquired)
      case True
      have "snd (snd (LockWait_loop env l expire w)) = w1"
        using a Inr True by (subst LockWait_loop.simps) simp
      then show ?thesis using a Inr True by (intro exI[of _ w]) simp
    next
      case False
      let ?w2 = "Sleep env (Expiry l) w1"
      have nt: "\<not> expire < clock ?w2"
        using "1.prems" a Inr False by (subst (asm) LockWait_loop.simps) (auto simp: Let_def)
      then have eq: "LockWait_loop env l expire w = LockWait_loop env l expire ?w2"
        using a Inr False by (subst LockWait_loop.simps) (simp add: Let_def)
      from "1.IH"[OF a[symmetric] Inr False refl nt] "1.prems" eq show ?thesis by simp
    qed
  qed
qed

lemma attempt_mutex [simp]: "attempt (l\<lparr>mutex := b\<rparr>) w = attempt l w"
  by (simp add: attempt_def acquire_cmd_def)

lemma attempt_keeps_live:
  assumes "attempt l w = (Inr False, w1)"
  shows "live w1 k = live w k"
proof -
  have "w1 = advance w"
    using assms
    by (cases "pending w") (auto simp: attempt_def acquire_cmd_def Do_def split: if_splits)
  then show ?thesis by simp
qed

lemma LockWait_loop_excluded:
  "live w (Key l)
    \<Longrightarrow> \<forall>w'. live w' (Key l) \<longrightarrow> live (Sleep env (Expiry l) w') (Key l)
    \<Longrightarrow> fst (LockWait_loop env l expire w) \<noteq> None"
proof (induction env l expire w rule: LockWait_loop.induct)
  case (1 env l expire w)
  obtain r w1 where a: "attempt l w = (r, w1)" by (cases "attempt l w")
  have lost: "r \<noteq> Inr True" using attempt_on_live[OF "1.prems"(1)] a by simp
  show ?case
  proof (cases r)
    case (Inl err)
    with a show ?thesis by (subst LockWait_loop.simps) simp
  next
    case (Inr acquired)
    with lost have busy: "\<not> acquired" by simp
    let ?w2 = "Sleep env (Expiry l) w1"
    have "live w1 (Key l)" using attempt_keeps_live[of l w w1] a Inr busy "1.prems"(1) by simp
    then have l2: "live ?w2 (Key l)" using "1.prems"(2) by blast
    show ?thesis
    proof (cases "expire < clock ?w2")
      case True
      with a Inr busy show ?thesis by (subst LockWait_loop.simps) (simp add: Let_def)
    next
      case False
      then have eq: "LockWait_loop env l expire w = LockWait_loop env l expire ?w2"
        using a Inr busy by (subst LockWait_loop.simps) (simp add: Let_def)
      from "1.IH"[OF a[symmetric] Inr busy refl False l2 "1.prems"(2)] eq
      show ?thesis by simp
    qed
  qed
qed

lemma LockWait_excluded:
  assumes "live w (Key h)"
    and "\<forall>w'. live w' (Key h) \<longrightarrow> live (Sleep env (Expiry h) w') (Key h)"
  shows "fst (LockWait env h wait w) \<noteq> Returns None"
proof (cases "mutex h")
  case True
  then show ?thesis by (simp add: LockWait_def)
next
  case False
  have "fst (LockWait_loop env (h\<lparr>mutex := True\<rparr>) (clock w + wait) w) \<noteq> None"
    using LockWait_loop_excluded[of w "h\<lparr>mutex := True\<rparr>" env "clock w + wait"] assms by simp
  with False show ?thesis by (simp add: LockWait_def split_beta)
qed

lemma LockWait_success:
  assumes "fst (LockWait env h wait w) = Returns None"
  shows "\<exists>w'. \<not> live w' (Key h) \<and> fst (attempt h w') = Inr True
            \<and> snd (snd (LockWait env h wait w)) = snd (attempt h w')"
proof -
  have free: "\<not> mutex h" using assms by (auto simp: LockWait_def split: if_splits)
  let ?r = "LockWait_loop env (h\<lparr>mutex := True\<rparr>) (clock w + wait) w"
  have r: "fst ?r = None" "snd (snd (LockWait env h wait w)) = snd (snd ?r)"
    using assms free by (simp_all add: LockWait_def split_beta)
  from LockWait_loop_success[OF r(1)] obtain w'
    where w': "fst (attempt h w') = Inr True" "snd (snd ?r) = snd (attempt h w')"
    by auto
  from attempt_success[OF w'(1)] w' r(2) show ?thesis by auto
qed

text \<open>
  C1. Once the attempt of a handle on a key has succeeded, no attempt of any handle
  on that key succeeds for as long as the key stays live in the store, whatever
  the interleaving of further attempts, renewals, Unlock calls and time: the
  list of winners of every such history is empty. The key was not live when the
  attempt succeeded and is live after it. LockWait's loop returns nil only
  through a successful attempt, and Unlock leaves the store as it is. So for the
  calls themselves: a LockWait or Lock call of any handle on the key, started
  while the key is live and run while the other clients keep it live, does not
  return nil; and a LockWait or Lock call returns nil only with the store as its
  successful attempt left it, made at a moment when the key was not live.
\<close>

theorem mutual_exclusion:
  assumes won: "fst (attempt l w0) = Inr True"
    and kept: "lease_kept (Key l) es (snd (attempt l w0))"
  shows "winners (Key l) es (snd (attempt l w0)) = []
    \<and> \<not> live w0 (Key l)
    \<and> (\<forall>env h expire w. fst (LockWait_loop env h expire w) = None \<longrightarrow>
          (\<exists>w'. fst (attempt h w') = Inr True
               \<and> snd (snd (LockWait_loop env h expire w)) = snd (attempt h w')))
    \<and> (\<forall>h w. lock_step (Release h) w = w)
    \<and> live (snd (attempt l w0)) (Key l)
    \<and> (\<forall>env h wait w.
          Key h = Key l \<and> live w (Key l)
          \<and> (\<forall>w'. live w' (Key l) \<longrightarrow> live (Sleep env (Expiry h) w') (Key l)) \<longrightarrow>
          fst (LockWait env h wait w) \<noteq> Returns None
          \<and> fst (Lock env h w) \<noteq> Returns None)
    \<and> (\<forall>env h wait w. fst (LockWait env h wait w) = Returns None \<longrightarrow>
          (\<exists>w'. \<not> live w' (Key h) \<and> fst (attempt h w') = Inr True
               \<and> snd (snd (LockWait env h wait w)) = snd (attempt h w')))
    \<and> (\<forall>env h w. fst (Lock env h w) = Returns None \<longrightarrow>
          (\<exists>w'. \<not> live w' (Key h) \<and> fst (attempt h w') = Inr True
               \<and> snd (snd (Lock env h w)) = snd (attempt h w')))"
proof -
  have a: "winners (Key l) es (snd (attempt l w0)) = []"
    using no_winner_while_leased[OF kept] .
  have b: "\<not> live w0 (Key l)" "live (snd (attempt l w0)) (Key l)"
    using attempt_success[OF won] by simp_all
  have c: "\<forall>env h expire w. fst (LockWait_loop env h expire w) = None \<longrightarrow>
          (\<exists>w'. fst (attempt h w') = Inr True
               \<and> snd (snd (LockWait_loop env h expire w)) = snd (attempt h w'))"
    using LockWait_loop_success by blast
  have d: "\<forall>h w. lock_step (Release h) w = w" by simp
  have e: "\<forall>env h wait w.
          Key h = Key l \<and> live w (Key l)
          \<and> (\<forall>w'. live w' (Key l) \<longrightarrow> live (Sleep env (Expiry h) w') (Key l)) \<longrightarrow>
          fst (LockWait env h wait w) \<noteq> Returns None
          \<and> fst (Lock env h w) \<noteq> Returns None"
  proof (intro allI impI, elim conjE)
    fix env and h :: lock_handle and wait w
    assume k: "Key h = Key l" and lv: "live w (Key l)"
      and env: "\<forall>w'. live w' (Key l) \<longrightarrow> live (Sleep env (Expiry h) w') (Key l)"
    have "\<And>d. fst (LockWait env h d w) \<noteq> Returns None"
      using LockWait_excluded[of w h env] k lv env by simp
    then show "fst (LockWait env h wait w) \<noteq> Returns None
          \<and> fst (Lock env h w) \<noteq> Returns None"
      by (simp add: Lock_def)
  qed
  have f: "\<forall>env h wait w. fst (LockWait env h wait w) = Returns None \<longrightarrow>
          (\<exists>w'. \<not> live w' (Key h) \<and> fst (attempt h w') = Inr True
               \<and> snd (snd (LockWait env h wait w)) = snd (attempt h w'))"
    using LockWait_success by blast
  have g: "\<forall>env h w. fst (Lock env h w) = Returns None \<longrightarrow>
          (\<exists>w'. \<not> live w' (Key h) \<and> fst (attempt h w') = Inr True
               \<and> snd (snd (Lock env h w)) = snd (attempt h w'))"
    using LockWait_success by (simp add: Lock_def)
  from a b c d e f g show ?thesis by blast
qed

theorem mutual_exclusion_witness:
  "fst (attempt (NewLock ''lock'') empty_world) = Inr True
   \<and> lease_kept ''lock''
        [Acquire (NewLock ''lock''), Pass 1000000000, Renew (NewLock ''lock''),
         Release (NewLock ''lock''), Pass 1500000000, Acquire (NewLock ''lock'')]
        (snd (attempt (NewLock ''lock'') empty_world))
   \<and> winners ''lock''
        [Acquire (NewLock ''lock''), Pass 1000000000, Renew (NewLock ''lock''),
         Release (NewLock ''lock''), Pass 1500000000, Acquire (NewLock ''lock'')]
        (snd (attempt (NewLock ''lock'') empty_world)) = []
   \<and> fst (LockWait rival_renews (NewLock ''lock'') 5000000000
            (snd (attempt (NewLock ''lock'') empty_world))) \<noteq> Returns None
   \<and> fst (Lock rival_renews (NewLock ''lock'')
            (snd (attempt (NewLock ''lock'') empty_world))) \<noteq> Returns None"
proof -
  have a: "fst (attempt (NewLock ''lock'') empty_world) = Inr True"
    by (simp add: attempt_def acquire_cmd_def Do_def pending_def advance_def live_def
        NewLock_def empty_world_def signed_divide_int_def)
  have k: "Key (NewLock ''lock'') = ''lock''" by (simp add: NewLock_def)
  have b: "lease_kept (Key (NewLock ''lock''))
        [Acquire (NewLock ''lock''), Pass 1000000000, Renew (NewLock ''lock''),
         Release (NewLock ''lock''), Pass 1500000000, Acquire (NewLock ''lock'')]
        (snd (attempt (NewLock ''lock'') empty_world))"
    by (simp add: attempt_def acquire_cmd_def renew_cmd_def Do_def pending_def advance_def
        live_def NewLock_def empty_world_def signed_divide_int_def)
  have lv: "live (snd (attempt (NewLock ''lock'') empty_world)) (Key (NewLock ''lock''))"
    by (simp add: attempt_def acquire_cmd_def Do_def pending_def advance_def live_def
        NewLock_def empty_world_def signed_divide_int_def)
  have env: "\<forall>w'. live w' (Key (NewLock ''lock'')) \<longrightarrow>
      live (Sleep rival_renews (Expiry (NewLock ''lock'')) w') (Key (NewLock ''lock''))"
    by (simp add: NewLock_def live_def Sleep_def rival_renews_def)
  note m = mutual_exclusion[OF a b]
  from m have "\<forall>env h wait w.
          Key h = Key (NewLock ''lock'') \<and> live w (Key (NewLock ''lock''))
          \<and> (\<forall>w'. live w' (Key (NewLock ''lock''))
                \<longrightarrow> live (Sleep env (Expiry h) w') (Key (NewLock ''lock''))) \<longrightarrow>
          fst (LockWait env h wait w) \<noteq> Returns None
          \<and> fst (Lock env h w) \<noteq> Returns None"
    by (elim conjE)
  then have c: "fst (LockWait rival_renews (NewLock ''lock'') 5000000000
            (snd (attempt (NewLock ''lock'') empty_world))) \<noteq> Returns None
       \<and> fst (Lock rival_renews (NewLock ''lock'')
            (snd (attempt (NewLock ''lock'') empty_world))) \<noteq> Returns None"
    using lv env by blast
  from m a b c show ?thesis unfolding k by blast
qed

end
